theory Spec2Isabelle
  imports Main "HOL-Library.Word"
begin

section \<open>The MP2 rate-monotonic scheduler module (mp2\_kernel\_mod.c)\<close>

text \<open>
  A shallow embedding of the kernel module. The module keeps its state in globals and in
  kmalloc'ed \<open>struct mp2_task_struct\<close> records that are linked into two intrusive lists
  (the registry \<open>mp2_task_struct_list\<close> and the run queue \<open>mp2_rq\<close>) and referenced by
  the pointer \<open>mp2_current\<close>. Since the same record is reached through all three, the
  records live in an explicit store (a map from addresses to records) and the lists and
  the pointer hold addresses.

  Conventions of the model:
  \<^item> \<open>unsigned int\<close> is \<open>32 word\<close>; \<open>u64\<close>, \<open>unsigned long\<close> (jiffies) and \<open>long\<close>
    are \<open>64 word\<close> (an LP64 kernel); \<open>long\<close> is compared signed.
  \<^item> Each entry point runs as one atomic step. The semaphore \<open>mp2_sem\<close> is kept as its
    count: \<open>down_interruptible\<close> succeeds when the count is positive, and the
    branch taken when it returns non-zero is the branch of a zero count.
    \<open>mp2_irq_disable\<close>/\<open>mp2_irq_enable\<close> have no effect on the data and are omitted.
  \<^item> What the module asks of the kernel (scheduler class and priority, task state,
    wake-ups) is appended to \<open>os_log\<close> in program order. What the kernel gives the
    module is a parameter: the jiffies counter, \<open>find_task_by_pid\<close>,
    \<open>msecs_to_jiffies\<close> and the address returned by \<open>kmalloc\<close>.
  \<^item> The run queue is modelled twice. In the module state it is the list of the records
    linked into it, which is what the links are as long as every record is linked at
    most once. The functions that work on the links are also given on the \<open>next\<close> and
    \<open>prev\<close> pointers themselves, as \<open>linked_add_task_to_rq\<close> and
    \<open>linked_remove_task_from_rq\<close>, and the two are proved to agree while the links are
    a list.
  \<^item> A step of the module state that faults is a \<open>fault\<close> returned under \<open>Inl\<close>, and
    so is a step that links a record that is already linked: there the C function
    returns normally and leaves links that are no list, which the module state cannot
    hold. The module state does not follow the program past such a step; statements
    about the states the module reaches are statements about the runs without one.
  \<^item> The text protocol (\<open>sscanf\<close> of "R, pid, P, C.") is outside the model: the entry
    points take the parsed numbers.
\<close>

subsection \<open>Data\<close>

datatype mp2_state = MP2_TASK_RUNNING | MP2_TASK_READY | MP2_TASK_SLEEPING

text \<open>
  \<open>struct mp2_task_struct\<close>. The fields \<open>C\<close> and \<open>P\<close> are named \<open>task_C\<close> and
  \<open>task_P\<close>. \<open>task\<close> is the \<open>struct task_struct *\<close> of the process. \<open>wakeup_timer\<close>
  is \<open>Some e\<close> when the timer is pending with expiry \<open>e\<close> and \<open>None\<close> when it is
  not. The two \<open>list_head\<close> fields are the membership of the record's address in the
  two lists of the module state.
\<close>

record mp2_task_struct =
  pid :: "32 word"
  task :: nat
  wakeup_timer :: "64 word option"
  task_C :: "32 word"
  task_P :: "32 word"
  next_period :: "64 word"
  state :: mp2_state

datatype policy = SCHED_NORMAL | SCHED_FIFO

datatype task_state = TASK_UNINTERRUPTIBLE

datatype os_call =
    Sched_setscheduler nat policy int
  | Set_task_state nat task_state
  | Wake_up_process nat
  | Wake_up_interruptible
  | Schedule

datatype fault = DivideError | NullPointer | BadPointer | ListCorruption

text \<open>The globals of the module, the store of task records and the log of kernel calls.\<close>

record sched =
  heap :: "nat \<Rightarrow> mp2_task_struct option"
  mp2_task_struct_list :: "nat list"
  mp2_rq :: "nat list"
  mp2_current :: "nat option"
  mp2_sem :: nat
  os_log :: "os_call list"

text \<open>The kernel services the module calls that return a value.\<close>

record kernel =
  find_task_by_pid :: "32 word \<Rightarrow> nat option"
  msecs_to_jiffies :: "32 word \<Rightarrow> 64 word"

text \<open>\<open>MAX_USER_RT_PRIO\<close> of \<open>linux/sched.h\<close>.\<close>

definition MAX_USER_RT_PRIO :: int where
  "MAX_USER_RT_PRIO = 100"

text \<open>
  \<open>mp2_init_module\<close>: both list heads initialised empty, the semaphore at 1, no current
  task.
\<close>

definition mp2_init_module :: sched where
  "mp2_init_module =
     \<lparr>heap = (\<lambda>a. None), mp2_task_struct_list = [], mp2_rq = [], mp2_current = None,
      mp2_sem = 1, os_log = []\<rparr>"

subsection \<open>Run queue\<close>

text \<open>
  The loop of \<open>mp2_add_task_to_rq\<close>: walk from the first node, stop at the first node
  whose period is strictly greater than the new task's, link the new node before it (or
  at the tail when the walk reaches the head again).
\<close>

fun rq_walk :: "(nat \<Rightarrow> mp2_task_struct option) \<Rightarrow> 32 word \<Rightarrow> nat \<Rightarrow> nat list \<Rightarrow> fault + nat list" where
  "rq_walk h p t [] = Inr [t]"
| "rq_walk h p t (c # cs) =
     (case h c of
        None \<Rightarrow> Inl BadPointer
      | Some ct \<Rightarrow>
          if task_P ct > p then Inr (t # c # cs)
          else (case rq_walk h p t cs of Inl e \<Rightarrow> Inl e | Inr q \<Rightarrow> Inr (c # q)))"

text \<open>
  \<open>mp2_add_task_to_rq\<close> on the run queue as a list. The C function makes no test of its
  own: called on a node that is already linked it returns normally, and \<open>__list_add\<close>
  has overwritten the node's own links, so that the run queue is no longer a list
  (\<open>linked_add_task_to_rq\<close> below computes those links). The list of the module state
  ends there: that step is \<open>ListCorruption\<close>, and the membership test that produces it
  belongs to this model, not to the code.
\<close>

definition mp2_add_task_to_rq :: "nat \<Rightarrow> sched \<Rightarrow> fault + sched" where
  "mp2_add_task_to_rq t s =
     (case heap s t of
        None \<Rightarrow> Inl BadPointer
      | Some r \<Rightarrow>
          if t \<in> set (mp2_rq s) then Inl ListCorruption
          else (case rq_walk (heap s) (task_P r) t (mp2_rq s) of
                  Inl e \<Rightarrow> Inl e
                | Inr q \<Rightarrow>
                    Inr (s\<lparr>heap := (heap s)(t \<mapsto> r\<lparr>state := MP2_TASK_READY\<rparr>),
                           mp2_rq := q\<rparr>)))"

text \<open>
  \<open>mp2_remove_task_from_rq\<close> is a bare \<open>list_del\<close>. On a node that is not linked (its
  links are uninitialised after \<open>kmalloc\<close>, or poisoned by an earlier \<open>list_del\<close>) it
  writes through wild pointers: \<open>BadPointer\<close>.
\<close>

definition mp2_remove_task_from_rq :: "nat \<Rightarrow> sched \<Rightarrow> fault + sched" where
  "mp2_remove_task_from_rq t s =
     (if t \<in> set (mp2_rq s) then Inr (s\<lparr>mp2_rq := remove1 t (mp2_rq s)\<rparr>)
      else Inl BadPointer)"

subsection \<open>Registry lookup and the timer handler\<close>

fun scan_task_list :: "(nat \<Rightarrow> mp2_task_struct option) \<Rightarrow> 32 word \<Rightarrow> nat list \<Rightarrow> fault + nat option" where
  "scan_task_list h p [] = Inr None"
| "scan_task_list h p (t # ts) =
     (case h t of
        None \<Rightarrow> Inl BadPointer
      | Some r \<Rightarrow> if pid r = p then Inr (Some t) else scan_task_list h p ts)"

text \<open>
  \<open>find_mp2_task_by_pid\<close>: the first record of the registry with that pid, \<open>NULL\<close> when
  there is none or when the semaphore is not obtained. The semaphore is released before
  returning, so the state is unchanged.
\<close>

definition find_mp2_task_by_pid :: "sched \<Rightarrow> 32 word \<Rightarrow> fault + nat option" where
  "find_mp2_task_by_pid s p =
     (if mp2_sem s = 0 then Inr None
      else scan_task_list (heap s) p (mp2_task_struct_list s))"

definition wakeup_timer_handler :: "32 word \<Rightarrow> sched \<Rightarrow> fault + sched" where
  "wakeup_timer_handler p s =
     (case find_mp2_task_by_pid s p of
        Inl e \<Rightarrow> Inl e
      | Inr None \<Rightarrow> Inr s
      | Inr (Some t) \<Rightarrow>
          (case heap s t of
             None \<Rightarrow> Inl BadPointer
           | Some r \<Rightarrow>
               (case mp2_add_task_to_rq t (s\<lparr>heap := (heap s)(t \<mapsto> r\<lparr>state := MP2_TASK_READY\<rparr>)\<rparr>) of
                  Inl e \<Rightarrow> Inl e
                | Inr s1 \<Rightarrow> Inr (s1\<lparr>os_log := os_log s1 @ [Wake_up_interruptible]\<rparr>))))"

text \<open>
  The kernel running an expired timer: the timer of record \<open>t\<close> is pending with an expiry
  not after \<open>jiffies\<close>; it is taken off the pending timers and its function is called
  with its data, the pid stored by \<open>setup_timer\<close>. \<open>None\<close> when the timer is not due.
\<close>

definition run_timer :: "64 word \<Rightarrow> nat \<Rightarrow> sched \<Rightarrow> (fault + sched) option" where
  "run_timer jiffies t s =
     (case heap s t of
        None \<Rightarrow> None
      | Some r \<Rightarrow>
          (case wakeup_timer r of
             None \<Rightarrow> None
           | Some e \<Rightarrow>
               if e \<le> jiffies
               then Some (wakeup_timer_handler (pid r)
                            (s\<lparr>heap := (heap s)(t \<mapsto> r\<lparr>wakeup_timer := None\<rparr>)\<rparr>))
               else None))"

subsection \<open>Admission control and registration\<close>

text \<open>
  The summation loop of \<open>mp2_admission_control\<close>. \<open>(tmp->C)*1000\<close> is an
  \<open>unsigned int\<close> product and quotient, widened to \<open>long\<close> when added. A zero
  period is a divide error.
\<close>

fun sum_utilization :: "(nat \<Rightarrow> mp2_task_struct option) \<Rightarrow> 64 word \<Rightarrow> nat list \<Rightarrow> fault + 64 word" where
  "sum_utilization h acc [] = Inr acc"
| "sum_utilization h acc (t # ts) =
     (case h t of
        None \<Rightarrow> Inl BadPointer
      | Some r \<Rightarrow>
          if task_P r = 0 then Inl DivideError
          else sum_utilization h (acc + ucast ((task_C r * 1000) div task_P r)) ts)"

definition mp2_admission_control :: "32 word \<Rightarrow> 32 word \<Rightarrow> sched \<Rightarrow> fault + bool" where
  "mp2_admission_control c p s =
     (if p = 0 then Inl DivideError
      else if mp2_sem s = 0 then Inr False
      else (case sum_utilization (heap s) (ucast ((c * 1000) div p)) (mp2_task_struct_list s) of
              Inl e \<Rightarrow> Inl e
            | Inr u \<Rightarrow> Inr (\<not> (693 <s u))))"

text \<open>
  \<open>mp2_register_process\<close> with the parsed pid, period and computation time. \<open>new_task\<close>
  is what \<open>kmalloc\<close> returned; the result is not checked, so \<open>NULL\<close> faults at the first
  store. On the two rejecting paths the record is freed again, and on the path where the
  semaphore is not obtained it is leaked without being linked anywhere: in all three the
  module state is as before. The record enters the store when it is linked into the
  registry, with the timer set up but not pending.
\<close>

definition mp2_register_process ::
  "kernel \<Rightarrow> 64 word \<Rightarrow> nat option \<Rightarrow> 32 word \<Rightarrow> 32 word \<Rightarrow> 32 word \<Rightarrow> sched \<Rightarrow> fault + sched" where
  "mp2_register_process k jiffies new_task pid' p c s =
     (case new_task of
        None \<Rightarrow> Inl NullPointer
      | Some a \<Rightarrow>
          (case mp2_admission_control c p s of
             Inl e \<Rightarrow> Inl e
           | Inr adm \<Rightarrow>
               if \<not> adm then Inr s
               else (case find_task_by_pid k pid' of
                       None \<Rightarrow> Inr s
                     | Some h \<Rightarrow>
                         if mp2_sem s = 0 then Inr s
                         else Inr (s\<lparr>heap := (heap s)(a \<mapsto>
                                        \<lparr>pid = pid', task = h, wakeup_timer = None,
                                         task_C = c, task_P = p,
                                         next_period = jiffies + msecs_to_jiffies k p,
                                         state = MP2_TASK_SLEEPING\<rparr>),
                                      mp2_task_struct_list := mp2_task_struct_list s @ [a]\<rparr>))))"

subsection \<open>Deregistration\<close>

definition mp2_deregister_process :: "32 word \<Rightarrow> sched \<Rightarrow> fault + sched" where
  "mp2_deregister_process p s =
     (case find_mp2_task_by_pid s p of
        Inl e \<Rightarrow> Inl e
      | Inr None \<Rightarrow> Inr s
      | Inr (Some t) \<Rightarrow>
          (case heap s t of
             None \<Rightarrow> Inl BadPointer
           | Some r \<Rightarrow>
               (case mp2_remove_task_from_rq t s of
                  Inl e \<Rightarrow> Inl e
                | Inr s1 \<Rightarrow>
                    if mp2_sem s1 = 0 then Inr s1
                    else
                      let s2 = s1\<lparr>mp2_task_struct_list := remove1 t (mp2_task_struct_list s1)\<rparr>;
                          s3 = (if mp2_current s2 = Some t
                                then s2\<lparr>mp2_current := None,
                                        os_log := os_log s2 @ [Sched_setscheduler (task r) SCHED_NORMAL 0]\<rparr>
                                else s2)
                      in Inr (s3\<lparr>heap := (heap s3)(t := None),
                                 os_log := os_log s3 @ [Wake_up_interruptible]\<rparr>))))"

subsection \<open>Yield\<close>

text \<open>The test \<open>mp2_current && (mp2_current->pid == p)\<close>.\<close>

definition current_has_pid :: "sched \<Rightarrow> 32 word \<Rightarrow> fault + bool" where
  "current_has_pid s p =
     (case mp2_current s of
        None \<Rightarrow> Inr False
      | Some c \<Rightarrow> (case heap s c of None \<Rightarrow> Inl BadPointer | Some cr \<Rightarrow> Inr (pid cr = p)))"

text \<open>The end of \<open>mp2_yield_process\<close>, common to both branches.\<close>

definition yield_suspend :: "mp2_task_struct \<Rightarrow> sched \<Rightarrow> sched" where
  "yield_suspend r s =
     s\<lparr>os_log := os_log s @
         [Sched_setscheduler (task r) SCHED_NORMAL 0,
          Set_task_state (task r) TASK_UNINTERRUPTIBLE,
          Schedule]\<rparr>"

definition mp2_yield_process :: "64 word \<Rightarrow> 32 word \<Rightarrow> sched \<Rightarrow> fault + sched" where
  "mp2_yield_process jiffies p s =
     (case current_has_pid s p of
        Inl e \<Rightarrow> Inl e
      | Inr is_cur \<Rightarrow>
          (case (if is_cur then Inr (mp2_current s) else find_mp2_task_by_pid s p) of
             Inl e \<Rightarrow> Inl e
           | Inr None \<Rightarrow> Inr s
           | Inr (Some t) \<Rightarrow>
               (case heap s t of
                  None \<Rightarrow> Inl BadPointer
                | Some r \<Rightarrow>
                    if jiffies < next_period r then
                      (let release_time = next_period r - jiffies;
                           s1 = s\<lparr>heap := (heap s)(t \<mapsto>
                                   r\<lparr>state := MP2_TASK_SLEEPING,
                                     wakeup_timer := Some (jiffies + release_time)\<rparr>)\<rparr>
                       in (case current_has_pid s1 (pid r) of
                             Inl e \<Rightarrow> Inl e
                           | Inr running \<Rightarrow>
                               if running then
                                 (case mp2_remove_task_from_rq t s1 of
                                    Inl e \<Rightarrow> Inl e
                                  | Inr s2 \<Rightarrow>
                                      Inr (yield_suspend r
                                             (s2\<lparr>mp2_current := None,
                                                 os_log := os_log s2 @ [Wake_up_interruptible]\<rparr>)))
                               else Inr (yield_suspend r s1)))
                    else
                      (case (if state r = MP2_TASK_SLEEPING
                             then mp2_add_task_to_rq t
                                    (s\<lparr>heap := (heap s)(t \<mapsto> r\<lparr>state := MP2_TASK_READY\<rparr>)\<rparr>)
                             else Inr s) of
                         Inl e \<Rightarrow> Inl e
                       | Inr s1 \<Rightarrow>
                           Inr (yield_suspend r
                                  (s1\<lparr>os_log := os_log s1 @ [Wake_up_interruptible],
                                      mp2_current := None\<rparr>))))))"

subsection \<open>Dispatcher\<close>

text \<open>
  Lines 581 to 591 of \<open>mp2_sched_kthread_fn\<close>: wake the selected process, raise its
  priority, make it the current task, mark it running and move its next release.
\<close>

definition dispatch_selected :: "kernel \<Rightarrow> nat \<Rightarrow> sched \<Rightarrow> fault + sched" where
  "dispatch_selected k t s =
     (case heap s t of
        None \<Rightarrow> Inl BadPointer
      | Some r \<Rightarrow>
          Inr (s\<lparr>heap := (heap s)(t \<mapsto>
                   r\<lparr>state := MP2_TASK_RUNNING,
                     next_period := next_period r + msecs_to_jiffies k (task_P r)\<rparr>),
                 mp2_current := Some t,
                 os_log := os_log s @
                   [Wake_up_process (task r),
                    Sched_setscheduler (task r) SCHED_FIFO (MAX_USER_RT_PRIO - 1)]\<rparr>))"

text \<open>
  One pass through the body of the loop of \<open>mp2_sched_kthread_fn\<close>, after the thread has
  been woken and \<open>kthread_should_stop\<close> is false.
\<close>

definition mp2_sched_kthread_cycle :: "kernel \<Rightarrow> sched \<Rightarrow> fault + sched" where
  "mp2_sched_kthread_cycle k s =
     (case mp2_rq s of
        [] \<Rightarrow> Inr s
      | t # rest \<Rightarrow>
          (case mp2_current s of
             None \<Rightarrow> dispatch_selected k t s
           | Some c \<Rightarrow>
               (case heap s c of
                  None \<Rightarrow> Inl BadPointer
                | Some cr \<Rightarrow>
                    (case heap s t of
                       None \<Rightarrow> Inl BadPointer
                     | Some tr \<Rightarrow>
                         if task_P cr > task_P tr then
                           dispatch_selected k t
                             (s\<lparr>heap := (heap s)(c \<mapsto> cr\<lparr>state := MP2_TASK_READY\<rparr>),
                                mp2_current := None,
                                os_log := os_log s @
                                  [Sched_setscheduler (task cr) SCHED_NORMAL 0,
                                   Set_task_state (task cr) TASK_UNINTERRUPTIBLE]\<rparr>)
                         else Inr s))))"

subsection \<open>Sequences of run-queue operations\<close>

text \<open>
  The two run-queue operations as a small language, for statements about sequences of
  insertions and removals. \<open>arrival\<close> is ghost state: it remembers, for each address,
  the position in the sequence of its latest insertion. \<open>rq_before\<close> orders two records
  by period and, at equal period, by arrival. \<open>rq_demo\<close> is a store of three records with
  an empty run queue.
\<close>

datatype rq_op = Insert nat | Remove nat

fun arrival :: "rq_op list \<Rightarrow> nat \<Rightarrow> (nat \<Rightarrow> nat) \<Rightarrow> nat \<Rightarrow> nat" where
  "arrival [] n f = f"
| "arrival (Insert t # ops) n f = arrival ops (Suc n) (f(t := n))"
| "arrival (Remove t # ops) n f = arrival ops (Suc n) f"

definition rq_before :: "(nat \<Rightarrow> 32 word) \<Rightarrow> (nat \<Rightarrow> nat) \<Rightarrow> nat \<Rightarrow> nat \<Rightarrow> bool" where
  "rq_before kf f a b = (kf a < kf b \<or> (kf a = kf b \<and> f a < f b))"

definition rq_demo :: sched where
  "rq_demo = mp2_init_module\<lparr>heap :=
     [0 \<mapsto> \<lparr>pid = 1, task = 11, wakeup_timer = None, task_C = 5, task_P = 50,
             next_period = 50, state = MP2_TASK_SLEEPING\<rparr>,
      1 \<mapsto> \<lparr>pid = 2, task = 12, wakeup_timer = None, task_C = 5, task_P = 20,
             next_period = 20, state = MP2_TASK_SLEEPING\<rparr>,
      2 \<mapsto> \<lparr>pid = 3, task = 13, wakeup_timer = None, task_C = 5, task_P = 50,
             next_period = 50, state = MP2_TASK_SLEEPING\<rparr>]\<rparr>"

subsection \<open>The run queue as linked nodes\<close>

text \<open>
  The run queue as the C code has it: a circular doubly linked list of \<open>list_head\<close>
  nodes. \<open>Head\<close> is the global \<open>mp2_rq\<close>, \<open>Node a\<close> the field \<open>mp2_rq_list\<close> of the
  record at address \<open>a\<close>. \<open>rq_next\<close> and \<open>rq_prev\<close> hold the \<open>next\<close> and \<open>prev\<close>
  pointers of every node; \<open>None\<close> is a pointer that must not be followed (the fields of
  a record fresh from \<open>kmalloc\<close>, or the poison \<open>list_del\<close> leaves).
\<close>

datatype lh = Head | Node nat

record rq_mem =
  mem_heap :: "nat \<Rightarrow> mp2_task_struct option"
  rq_next :: "lh \<Rightarrow> lh option"
  rq_prev :: "lh \<Rightarrow> lh option"

text \<open>
  \<open>INIT_LIST_HEAD(&mp2_rq)\<close> over a store of records: the head points to itself, no record
  is linked.
\<close>

definition INIT_LIST_HEAD :: "(nat \<Rightarrow> mp2_task_struct option) \<Rightarrow> rq_mem" where
  "INIT_LIST_HEAD h =
     \<lparr>mem_heap = h, rq_next = (\<lambda>x. None)(Head \<mapsto> Head), rq_prev = (\<lambda>x. None)(Head \<mapsto> Head)\<rparr>"

text \<open>
  \<open>__list_add(new, prev, next)\<close> and \<open>list_del(entry)\<close> of \<open>linux/list.h\<close>, the four
  stores of each in their order.
\<close>

definition list_add_between :: "lh \<Rightarrow> lh \<Rightarrow> lh \<Rightarrow> rq_mem \<Rightarrow> rq_mem" where
  "list_add_between new prev next m =
     (let m1 = m\<lparr>rq_prev := (rq_prev m)(next \<mapsto> new)\<rparr>;
          m2 = m1\<lparr>rq_next := (rq_next m1)(new \<mapsto> next)\<rparr>;
          m3 = m2\<lparr>rq_prev := (rq_prev m2)(new \<mapsto> prev)\<rparr>
      in m3\<lparr>rq_next := (rq_next m3)(prev \<mapsto> new)\<rparr>)"

definition list_del :: "lh \<Rightarrow> rq_mem \<Rightarrow> fault + rq_mem" where
  "list_del entry m =
     (case rq_prev m entry of
        None \<Rightarrow> Inl BadPointer
      | Some prev \<Rightarrow>
          (case rq_next m entry of
             None \<Rightarrow> Inl BadPointer
           | Some next \<Rightarrow>
               (let m1 = m\<lparr>rq_prev := (rq_prev m)(next \<mapsto> prev)\<rparr>;
                    m2 = m1\<lparr>rq_next := (rq_next m1)(prev \<mapsto> next)\<rparr>;
                    m3 = m2\<lparr>rq_next := (rq_next m2)(entry := None)\<rparr>
                in Inr (m3\<lparr>rq_prev := (rq_prev m3)(entry := None)\<rparr>))))"

text \<open>
  The loop of \<open>mp2_add_task_to_rq\<close> on the links. It follows \<open>next\<close> pointers until it
  is back at the head or meets a record of strictly greater period, and it need not end:
  the first argument is fuel, and \<open>None\<close> is a walk that has not ended within it.
\<close>

fun list_for_each_rq ::
  "nat \<Rightarrow> (nat \<Rightarrow> mp2_task_struct option) \<Rightarrow> (lh \<Rightarrow> lh option) \<Rightarrow> 32 word \<Rightarrow> lh \<Rightarrow> lh
     \<Rightarrow> (fault + lh \<times> lh) option" where
  "list_for_each_rq 0 h nx p prev cur = None"
| "list_for_each_rq (Suc n) h nx p prev Head = Some (Inr (prev, Head))"
| "list_for_each_rq (Suc n) h nx p prev (Node c) =
     (case h c of
        None \<Rightarrow> Some (Inl BadPointer)
      | Some ct \<Rightarrow>
          if task_P ct > p then Some (Inr (prev, Node c))
          else (case nx (Node c) of
                  None \<Rightarrow> Some (Inl BadPointer)
                | Some c' \<Rightarrow> list_for_each_rq n h nx p (Node c) c'))"

text \<open>
  \<open>mp2_add_task_to_rq\<close> and \<open>mp2_remove_task_from_rq\<close> on the links, lines 102 to 138.
  Neither tests whether the node is linked.
\<close>

definition linked_add_task_to_rq :: "nat \<Rightarrow> nat \<Rightarrow> rq_mem \<Rightarrow> (fault + rq_mem) option" where
  "linked_add_task_to_rq n t m =
     (case mem_heap m t of
        None \<Rightarrow> Some (Inl BadPointer)
      | Some r \<Rightarrow>
          (let m1 = m\<lparr>mem_heap := (mem_heap m)(t \<mapsto> r\<lparr>state := MP2_TASK_READY\<rparr>)\<rparr>
           in (case rq_next m1 Head of
                 None \<Rightarrow> Some (Inl BadPointer)
               | Some first \<Rightarrow>
                   (case list_for_each_rq n (mem_heap m1) (rq_next m1) (task_P r) Head first of
                      None \<Rightarrow> None
                    | Some (Inl e) \<Rightarrow> Some (Inl e)
                    | Some (Inr (prev, cur)) \<Rightarrow>
                        Some (Inr (list_add_between (Node t) prev cur m1))))))"

definition linked_remove_task_from_rq :: "nat \<Rightarrow> rq_mem \<Rightarrow> fault + rq_mem" where
  "linked_remove_task_from_rq t m = list_del (Node t) m"

text \<open>
  \<open>rq_is m q\<close>: the links form the circular doubly linked list of the records \<open>q\<close>, from
  the head and back to it.
\<close>

definition linked :: "rq_mem \<Rightarrow> lh \<Rightarrow> lh \<Rightarrow> bool" where
  "linked m u v = (rq_next m u = Some v \<and> rq_prev m v = Some u)"

definition rq_is :: "rq_mem \<Rightarrow> nat list \<Rightarrow> bool" where
  "rq_is m q = (distinct q \<and> successively (linked m) (Head # map Node q @ [Head]))"

text \<open>
  Sequences of the two operations on the links. \<open>disciplined\<close> holds of a sequence, given
  the records on the queue before it, when every insertion is of an allocated record that
  is not on the queue at that point and every removal is of one that is.
\<close>

fun linked_run :: "nat \<Rightarrow> rq_op list \<Rightarrow> rq_mem \<Rightarrow> (fault + rq_mem) option" where
  "linked_run n [] m = Some (Inr m)"
| "linked_run n (Insert t # ops) m =
     (case linked_add_task_to_rq n t m of
        None \<Rightarrow> None
      | Some (Inl e) \<Rightarrow> Some (Inl e)
      | Some (Inr m') \<Rightarrow> linked_run n ops m')"
| "linked_run n (Remove t # ops) m =
     (case linked_remove_task_from_rq t m of
        Inl e \<Rightarrow> Some (Inl e)
      | Inr m' \<Rightarrow> linked_run n ops m')"

fun disciplined :: "(nat \<Rightarrow> mp2_task_struct option) \<Rightarrow> rq_op list \<Rightarrow> nat list \<Rightarrow> bool" where
  "disciplined h [] q = True"
| "disciplined h (Insert t # ops) q = (h t \<noteq> None \<and> t \<notin> set q \<and> disciplined h ops (t # q))"
| "disciplined h (Remove t # ops) q = (t \<in> set q \<and> disciplined h ops (removeAll t q))"

text \<open>
  The period of the record at an address, and the invariant of a disciplined sequence:
  the links are the list \<open>q\<close>, the periods are those of the store the sequence started
  from, and \<open>q\<close> is ordered by period and then arrival.
\<close>

definition mem_period :: "rq_mem \<Rightarrow> nat \<Rightarrow> 32 word" where
  "mem_period m a = (case mem_heap m a of None \<Rightarrow> 0 | Some r \<Rightarrow> task_P r)"

definition linked_inv ::
  "(nat \<Rightarrow> mp2_task_struct option) \<Rightarrow> nat \<Rightarrow> (nat \<Rightarrow> nat) \<Rightarrow> rq_mem \<Rightarrow> nat list \<Rightarrow> bool" where
  "linked_inv h n f m q =
     (rq_is m q \<and>
      (\<forall>x. map_option task_P (mem_heap m x) = map_option task_P (h x)) \<and>
      (\<forall>c \<in> set q. h c \<noteq> None \<and> f c < n) \<and>
      sorted_wrt (rq_before (mem_period m) f) q)"

subsection \<open>The utilization bound in the words of the specification\<close>

text \<open>
  \<open>1000*C/P\<close> over the natural numbers with truncating division, and its sum over the
  candidate and the registered records. \<open>no_wrap\<close> says that \<open>C*1000\<close> fits an
  \<open>unsigned int\<close>; \<open>registry_in_range\<close> that every registered record is allocated, has
  a non-zero period and a computation time that fits, and that there are fewer than
  \<open>2 ^ 31\<close> of them, so that the sum fits a \<open>long\<close>.
\<close>

definition util :: "32 word \<Rightarrow> 32 word \<Rightarrow> nat" where
  "util c p = (1000 * unat c) div unat p"

definition registered :: "sched \<Rightarrow> mp2_task_struct list" where
  "registered s = List.map_filter (heap s) (mp2_task_struct_list s)"

definition scaled_utilization :: "32 word \<Rightarrow> 32 word \<Rightarrow> sched \<Rightarrow> nat" where
  "scaled_utilization c p s =
     util c p + sum_list (map (\<lambda>r. util (task_C r) (task_P r)) (registered s))"

definition no_wrap :: "32 word \<Rightarrow> bool" where
  "no_wrap c = (unat c * 1000 < 2 ^ 32)"

definition record_in_range :: "sched \<Rightarrow> nat \<Rightarrow> bool" where
  "record_in_range s t =
     (case heap s t of None \<Rightarrow> False | Some r \<Rightarrow> task_P r \<noteq> 0 \<and> no_wrap (task_C r))"

definition registry_in_range :: "sched \<Rightarrow> bool" where
  "registry_in_range s =
     (length (mp2_task_struct_list s) < 2 ^ 31 \<and>
      list_all (record_in_range s) (mp2_task_struct_list s))"

subsection \<open>Runs of the module\<close>

text \<open>
  What can happen to the loaded module: a write of a register, yield or deregister
  command at some value of jiffies (for a registration, together with the address
  \<open>kmalloc\<close> hands out, which is not in use), the expiry of the timer of a record, and
  a wake-up of the dispatcher thread. \<open>step\<close> is \<open>None\<close> when the event cannot
  happen in the state. \<open>reachable_intact\<close> are the states the module reaches by a run
  none of whose steps faults, links a record that is already on the run queue or unlinks
  one that is not: the runs on which the run queue stays a list.
\<close>

datatype event =
    Register "64 word" nat "32 word" "32 word" "32 word"
  | Yield "64 word" "32 word"
  | Deregister "32 word"
  | Timer_expiry "64 word" nat
  | Dispatcher_wakeup

fun step :: "kernel \<Rightarrow> event \<Rightarrow> sched \<Rightarrow> (fault + sched) option" where
  "step k (Register j a pid' p c) s =
     (if heap s a = None then Some (mp2_register_process k j (Some a) pid' p c s) else None)"
| "step k (Yield j pid') s = Some (mp2_yield_process j pid' s)"
| "step k (Deregister pid') s = Some (mp2_deregister_process pid' s)"
| "step k (Timer_expiry j t) s = run_timer j t s"
| "step k Dispatcher_wakeup s = Some (mp2_sched_kthread_cycle k s)"

fun run :: "kernel \<Rightarrow> event list \<Rightarrow> sched \<Rightarrow> (fault + sched) option" where
  "run k [] s = Some (Inr s)"
| "run k (e # es) s =
     (case step k e s of
        None \<Rightarrow> None
      | Some (Inl f) \<Rightarrow> Some (Inl f)
      | Some (Inr s') \<Rightarrow> run k es s')"

definition reachable_intact :: "kernel \<Rightarrow> sched \<Rightarrow> bool" where
  "reachable_intact k s = (\<exists>es. run k es mp2_init_module = Some (Inr s))"

subsection \<open>A concrete run\<close>

text \<open>
  A kernel with one jiffy per millisecond in which every pid names a live process, and a
  run of two tasks: A (pid 1, period 100, computation 10, record at address 0) and
  B (pid 2, period 50, computation 10, record at address 1). Both register and yield, A
  is released at 100 and dispatched, B is released at 110 and preempts A.
\<close>

definition kernel_1000hz :: kernel where
  "kernel_1000hz = \<lparr>find_task_by_pid = (\<lambda>p. Some (unat p)), msecs_to_jiffies = ucast\<rparr>"

definition two_tasks :: "event list" where
  "two_tasks =
     [Register 0 0 1 100 10, Yield 0 1, Register 60 1 2 50 10, Yield 60 2,
      Timer_expiry 100 0, Dispatcher_wakeup, Timer_expiry 110 1, Dispatcher_wakeup]"

text \<open>
  A second run: B registers at jiffies 60 and does not yield until jiffies 115, after its
  first period boundary (110) has passed and while A is running.
\<close>

definition late_first_yield :: "event list" where
  "late_first_yield =
     [Register 0 0 1 100 10, Yield 0 1, Register 60 1 2 50 10,
      Timer_expiry 100 0, Dispatcher_wakeup, Yield 115 2]"

subsection \<open>Queue membership\<close>

text \<open>
  The semaphore is free, every record in state READY is linked into the run queue, and so
  is the current task.
\<close>

definition ready_queued :: "sched \<Rightarrow> bool" where
  "ready_queued s =
     (0 < mp2_sem s \<and>
      (\<forall>t r. heap s t = Some r \<and> state r = MP2_TASK_READY \<longrightarrow> t \<in> set (mp2_rq s)) \<and>
      (\<forall>c. mp2_current s = Some c \<longrightarrow> c \<in> set (mp2_rq s)))"

section \<open>The run queue is ordered by period, first come first served\<close>

lemma rq_walk_sorted:
  assumes "rq_walk h p t q = Inr q'"
    and "sorted_wrt (rq_before kf f) q"
    and "\<And>c. c \<in> set q \<Longrightarrow> (\<exists>r. h c = Some r \<and> task_P r = kf c) \<and> f c < n \<and> f' c = f c"
    and "f' t = n" and "kf t = p"
  shows "sorted_wrt (rq_before kf f') q' \<and> set q' = insert t (set q)"
  using assms
proof (induction q arbitrary: q')
  case Nil
  then show ?case by auto
next
  case (Cons c cs)
  from Cons.prems(3)[of c] obtain r where r: "h c = Some r" "task_P r = kf c" "f c < n" "f' c = f c"
    by auto
  have same: "sorted_wrt (rq_before kf f') (c # cs)"
  proof (rule sorted_wrt_mono_rel[OF _ Cons.prems(2)])
    fix x y assume "x \<in> set (c # cs)" "y \<in> set (c # cs)" "rq_before kf f x y"
    then show "rq_before kf f' x y"
      using Cons.prems(3)[of x] Cons.prems(3)[of y] by (simp add: rq_before_def)
  qed
  show ?case
  proof (cases "p < kf c")
    case True
    then have q': "q' = t # c # cs" using Cons.prems(1) r by simp
    have "\<And>x. x \<in> set cs \<Longrightarrow> kf c \<le> kf x"
      using Cons.prems(2) by (auto simp: rq_before_def)
    then have "\<And>x. x \<in> set (c # cs) \<Longrightarrow> kf t < kf x"
      using True Cons.prems(5) by (auto intro: less_le_trans)
    then have "\<forall>x \<in> set (c # cs). rq_before kf f' t x"
      unfolding rq_before_def by blast
    then show ?thesis using same q' by simp
  next
    case False
    then obtain q'' where w: "rq_walk h p t cs = Inr q''" and q': "q' = c # q''"
      using Cons.prems(1) r by (auto split: sum.splits)
    have ih: "sorted_wrt (rq_before kf f') q'' \<and> set q'' = insert t (set cs)"
      using Cons.IH[OF w] Cons.prems by auto
    have c_t: "rq_before kf f' c t"
      using False r Cons.prems(4,5) by (auto simp: rq_before_def)
    have "\<And>x. x \<in> set cs \<Longrightarrow> rq_before kf f' c x"
      using same by simp
    then have "\<forall>x \<in> set q''. rq_before kf f' c x"
      using ih c_t by auto
    then show ?thesis using ih q' by auto
  qed
qed


lemma sorted_wrt_remove1: "sorted_wrt R xs \<Longrightarrow> sorted_wrt R (remove1 x xs)"
  by (induction xs) (auto dest: notin_set_remove1)

lemma list_for_each_rq_numeral:
  "list_for_each_rq (numeral k) h nx p prev Head = Some (Inr (prev, Head))"
  "list_for_each_rq (numeral k) h nx p prev (Node c) =
     (case h c of
        None \<Rightarrow> Some (Inl BadPointer)
      | Some ct \<Rightarrow>
          if task_P ct > p then Some (Inr (prev, Node c))
          else (case nx (Node c) of
                  None \<Rightarrow> Some (Inl BadPointer)
                | Some c' \<Rightarrow> list_for_each_rq (pred_numeral k) h nx p (Node c) c'))"
  by (simp_all add: numeral_eq_Suc)

lemma linked_frame:
  assumes "successively (linked m) xs"
    and "\<And>u. u \<in> set (butlast xs) \<Longrightarrow> rq_next m' u = rq_next m u"
    and "\<And>v. v \<in> set (tl xs) \<Longrightarrow> rq_prev m' v = rq_prev m v"
  shows "successively (linked m') xs"
  using assms
proof (induction xs rule: induct_list012)
  case 1
  then show ?case by simp
next
  case (2 x)
  then show ?case by simp
next
  case (3 x y zs)
  have "linked m' x y" using "3.prems" by (simp add: linked_def)
  moreover have "successively (linked m') (y # zs)"
    using "3.prems" by (intro "3.IH") auto
  ultimately show ?case by simp
qed

lemma last_notin_butlast: "distinct xs \<Longrightarrow> xs \<noteq> [] \<Longrightarrow> last xs \<notin> set (butlast xs)"
  by (induction xs) (auto dest: in_set_butlastD)

lemma hd_notin_tl: "distinct xs \<Longrightarrow> xs \<noteq> [] \<Longrightarrow> hd xs \<notin> set (tl xs)"
  by (cases xs) auto

lemma walk_refines:
  assumes "successively (\<lambda>u v. nx u = Some v) (a # map Node xs @ [Head])"
    and "rq_walk h p t xs = Inr q'" and "length xs < n"
  shows "\<exists>pre post. xs = pre @ post \<and> q' = pre @ t # post \<and>
           list_for_each_rq n h nx p a (hd (map Node xs @ [Head])) =
             Some (Inr (last (a # map Node pre), hd (map Node post @ [Head])))"
  using assms
proof (induction xs arbitrary: a n q')
  case Nil
  then obtain k where "n = Suc k" by (cases n) auto
  then show ?case using Nil by simp
next
  case (Cons x xs)
  from Cons.prems(3) obtain k where k: "n = Suc k" "length xs < k" by (cases n) auto
  from Cons.prems(2) obtain ct where ct: "h x = Some ct" by (cases "h x") simp_all
  show ?case
  proof (cases "p < task_P ct")
    case True
    then have "q' = t # x # xs" using Cons.prems(2) ct by simp
    then have "x # xs = [] @ (x # xs) \<and> q' = [] @ t # (x # xs) \<and>
           list_for_each_rq n h nx p a (hd (map Node (x # xs) @ [Head])) =
             Some (Inr (last (a # map Node []), hd (map Node (x # xs) @ [Head])))"
      using True ct k by simp
    then show ?thesis by blast
  next
    case False
    then obtain q'' where w: "rq_walk h p t xs = Inr q''" and q': "q' = x # q''"
      using Cons.prems(2) ct by (cases "rq_walk h p t xs") simp_all
    have nxt: "nx (Node x) = Some (hd (map Node xs @ [Head]))"
      using Cons.prems(1) by (cases xs) simp_all
    have chain: "successively (\<lambda>u v. nx u = Some v) (Node x # map Node xs @ [Head])"
      using Cons.prems(1) by simp
    from Cons.IH[OF chain w k(2)] obtain pre post where
      pp: "xs = pre @ post" "q'' = pre @ t # post"
        "list_for_each_rq k h nx p (Node x) (hd (map Node xs @ [Head])) =
             Some (Inr (last (Node x # map Node pre), hd (map Node post @ [Head])))"
      by blast
    have "x # xs = (x # pre) @ post \<and> q' = (x # pre) @ t # post \<and>
           list_for_each_rq n h nx p a (hd (map Node (x # xs) @ [Head])) =
             Some (Inr (last (a # map Node (x # pre)), hd (map Node post @ [Head])))"
      using pp q' False ct k nxt by simp
    then show ?thesis by blast
  qed
qed


lemma list_add_between_inserts:
  assumes "rq_is m (pre @ post)" and "t \<notin> set (pre @ post)"
  shows "rq_is (list_add_between (Node t) (last (Head # map Node pre))
                  (hd (map Node post @ [Head])) m) (pre @ t # post)"
proof -
  define A where "A = Head # map Node pre"
  define B where "B = map Node post @ [Head]"
  define pl where "pl = last A"
  define c where "c = hd B"
  define m' where "m' = list_add_between (Node t) pl c m"
  have nx: "rq_next m' = ((rq_next m)(Node t \<mapsto> c))(pl \<mapsto> Node t)"
    and pv: "rq_prev m' = ((rq_prev m)(c \<mapsto> Node t))(Node t \<mapsto> pl)"
    by (simp_all add: m'_def list_add_between_def Let_def)
  have dq: "distinct (pre @ post)" using assms(1) by (simp add: rq_is_def)
  have dA: "distinct A" and dB: "distinct B"
    using dq by (auto simp: A_def B_def distinct_map inj_on_def)
  have ne: "A \<noteq> []" "B \<noteq> []" by (simp_all add: A_def B_def)
  have old: "successively (linked m) (A @ B)"
    using assms(1) by (simp add: rq_is_def A_def B_def)
  then have oA: "successively (linked m) A" and oB: "successively (linked m) B"
    using ne by (simp_all add: successively_append_iff)
  have tA: "Node t \<notin> set A" and tB: "Node t \<notin> set B"
    using assms(2) by (auto simp: A_def B_def)
  have plA: "pl \<in> set A" and cB: "c \<in> set B"
    using ne by (simp_all add: pl_def c_def)
  have pl_cases: "pl = Head \<or> pl \<in> Node ` set pre"
    using plA by (auto simp: A_def)
  have c_cases: "c = Head \<or> c \<in> Node ` set post"
    using cB by (auto simp: B_def)
  have disj: "set pre \<inter> set post = {}" using dq by simp
  have pl_t: "pl \<noteq> Node t" using plA tA by auto
  have c_t: "c \<noteq> Node t" using cB tB by auto
  have A': "successively (linked m') A"
  proof (rule linked_frame[OF oA])
    fix u assume u: "u \<in> set (butlast A)"
    then have "u \<noteq> pl" using last_notin_butlast[OF dA ne(1)] by (auto simp: pl_def)
    moreover have "u \<noteq> Node t" using u tA by (auto dest: in_set_butlastD)
    ultimately show "rq_next m' u = rq_next m u" by (simp add: nx)
  next
    fix v assume v: "v \<in> set (tl A)"
    then have vp: "v \<in> Node ` set pre" by (simp add: A_def)
    then have "v \<noteq> c" using c_cases disj by auto
    moreover have "v \<noteq> Node t" using vp assms(2) by auto
    ultimately show "rq_prev m' v = rq_prev m v" by (simp add: pv)
  qed
  have B': "successively (linked m') B"
  proof (rule linked_frame[OF oB])
    fix u assume u: "u \<in> set (butlast B)"
    then have up: "u \<in> Node ` set post" by (simp add: B_def)
    then have "u \<noteq> pl" using pl_cases disj by auto
    moreover have "u \<noteq> Node t" using up assms(2) by auto
    ultimately show "rq_next m' u = rq_next m u" by (simp add: nx)
  next
    fix v assume v: "v \<in> set (tl B)"
    then have "v \<noteq> c" using hd_notin_tl[OF dB ne(2)] by (auto simp: c_def)
    moreover have "v \<noteq> Node t" using v tB by (auto dest: list.set_sel(2)[OF ne(2)])
    ultimately show "rq_prev m' v = rq_prev m v" by (simp add: pv)
  qed
  have l1: "linked m' pl (Node t)" using pl_t by (simp add: linked_def nx pv)
  have l2: "linked m' (Node t) c" using pl_t c_t by (simp add: linked_def nx pv)
  have "successively (linked m') (A @ Node t # B)"
    using A' B' l1 l2 ne
    by (simp add: successively_append_iff successively_Cons pl_def c_def)
  moreover have "Head # map Node (pre @ t # post) @ [Head] = A @ Node t # B"
    by (simp add: A_def B_def)
  moreover have "distinct (pre @ t # post)" using dq assms(2) by auto
  ultimately show ?thesis
    by (simp add: rq_is_def m'_def pl_def c_def A_def B_def)
qed

lemma list_del_removes:
  assumes "rq_is m (pre @ t # post)"
  shows "\<exists>m'. list_del (Node t) m = Inr m' \<and> mem_heap m' = mem_heap m \<and> rq_is m' (pre @ post)"
proof -
  define A where "A = Head # map Node pre"
  define B where "B = map Node post @ [Head]"
  define pl where "pl = last A"
  define c where "c = hd B"
  have dq: "distinct (pre @ t # post)" using assms by (simp add: rq_is_def)
  have dA: "distinct A" and dB: "distinct B"
    using dq by (auto simp: A_def B_def distinct_map inj_on_def)
  have ne: "A \<noteq> []" "B \<noteq> []" by (simp_all add: A_def B_def)
  have "Head # map Node (pre @ t # post) @ [Head] = A @ Node t # B"
    by (simp add: A_def B_def)
  then have old: "successively (linked m) (A @ Node t # B)"
    using assms by (simp add: rq_is_def)
  then have oA: "successively (linked m) A" and oB: "successively (linked m) B"
    and l1: "linked m pl (Node t)" and l2: "linked m (Node t) c"
    using ne by (simp_all add: successively_append_iff successively_Cons pl_def c_def)
  define m' where "m' = m\<lparr>rq_prev := ((rq_prev m)(c \<mapsto> pl))(Node t := None),
                              rq_next := ((rq_next m)(pl \<mapsto> c))(Node t := None)\<rparr>"
  have del: "list_del (Node t) m = Inr m'"
    using l1 l2 by (simp add: list_del_def linked_def Let_def m'_def)
  have nx: "rq_next m' = ((rq_next m)(pl \<mapsto> c))(Node t := None)"
    and pv: "rq_prev m' = ((rq_prev m)(c \<mapsto> pl))(Node t := None)"
    by (simp_all add: m'_def)
  have tA: "Node t \<notin> set A" and tB: "Node t \<notin> set B"
    using dq by (auto simp: A_def B_def)
  have plA: "pl \<in> set A" and cB: "c \<in> set B"
    using ne by (simp_all add: pl_def c_def)
  have pl_cases: "pl = Head \<or> pl \<in> Node ` set pre"
    using plA by (auto simp: A_def)
  have c_cases: "c = Head \<or> c \<in> Node ` set post"
    using cB by (auto simp: B_def)
  have disj: "set pre \<inter> set post = {}" using dq by auto
  have pl_t: "pl \<noteq> Node t" using plA tA by auto
  have c_t: "c \<noteq> Node t" using cB tB by auto
  have A': "successively (linked m') A"
  proof (rule linked_frame[OF oA])
    fix u assume u: "u \<in> set (butlast A)"
    then have "u \<noteq> pl" using last_notin_butlast[OF dA ne(1)] by (auto simp: pl_def)
    moreover have "u \<noteq> Node t" using u tA by (auto dest: in_set_butlastD)
    ultimately show "rq_next m' u = rq_next m u" by (simp add: nx)
  next
    fix v assume v: "v \<in> set (tl A)"
    then have vp: "v \<in> Node ` set pre" by (simp add: A_def)
    then have "v \<noteq> c" using c_cases disj by auto
    moreover have "v \<noteq> Node t" using vp dq by auto
    ultimately show "rq_prev m' v = rq_prev m v" by (simp add: pv)
  qed
  have B': "successively (linked m') B"
  proof (rule linked_frame[OF oB])
    fix u assume u: "u \<in> set (butlast B)"
    then have up: "u \<in> Node ` set post" by (simp add: B_def)
    then have "u \<noteq> pl" using pl_cases disj by auto
    moreover have "u \<noteq> Node t" using up dq by auto
    ultimately show "rq_next m' u = rq_next m u" by (simp add: nx)
  next
    fix v assume v: "v \<in> set (tl B)"
    then have "v \<noteq> c" using hd_notin_tl[OF dB ne(2)] by (auto simp: c_def)
    moreover have "v \<noteq> Node t" using v tB by (auto dest: list.set_sel(2)[OF ne(2)])
    ultimately show "rq_prev m' v = rq_prev m v" by (simp add: pv)
  qed
  have l: "linked m' pl c" using pl_t c_t by (simp add: linked_def nx pv)
  have "successively (linked m') (A @ B)"
    using A' B' l ne by (simp add: successively_append_iff pl_def c_def)
  moreover have "Head # map Node (pre @ post) @ [Head] = A @ B"
    by (simp add: A_def B_def)
  moreover have "distinct (pre @ post)" using dq by auto
  ultimately have "rq_is m' (pre @ post)" by (simp add: rq_is_def)
  moreover have "mem_heap m' = mem_heap m" by (simp add: m'_def)
  ultimately show ?thesis using del by blast
qed


lemma rq_walk_heap_cong:
  assumes "\<And>x. map_option task_P (h' x) = map_option task_P (h x)"
  shows "rq_walk h' p t q = rq_walk h p t q"
proof (induction q)
  case Nil
  then show ?case by simp
next
  case (Cons c cs)
  show ?case
  proof (cases "h c")
    case None
    then have "h' c = None" using assms[of c] by simp
    then show ?thesis using None by simp
  next
    case (Some ct)
    then obtain ct' where "h' c = Some ct'" "task_P ct' = task_P ct"
      using assms[of c] by (cases "h' c") auto
    then show ?thesis using Some Cons.IH by simp
  qed
qed

lemma rq_walk_total:
  assumes "\<And>c. c \<in> set q \<Longrightarrow> h c \<noteq> None"
  shows "\<exists>q'. rq_walk h p t q = Inr q'"
  using assms
proof (induction q)
  case Nil
  then show ?case by simp
next
  case (Cons c cs)
  have "h c \<noteq> None" using Cons.prems[of c] by simp
  then obtain ct where "h c = Some ct" by auto
  moreover obtain q'' where "rq_walk h p t cs = Inr q''" using Cons by auto
  ultimately show ?case by simp
qed

lemma linked_add_refines:
  assumes "rq_is m q" and "t \<notin> set q" and "mem_heap m t = Some r"
    and "rq_walk (mem_heap m) (task_P r) t q = Inr q'" and "length q < n"
  shows "\<exists>m'. linked_add_task_to_rq n t m = Some (Inr m') \<and>
           mem_heap m' = (mem_heap m)(t \<mapsto> r\<lparr>state := MP2_TASK_READY\<rparr>) \<and>
           rq_next m' Head \<noteq> None \<and> rq_is m' q'"
proof -
  define m1 where "m1 = m\<lparr>mem_heap := (mem_heap m)(t \<mapsto> r\<lparr>state := MP2_TASK_READY\<rparr>)\<rparr>"
  have is1: "rq_is m1 q"
  proof -
    have "linked m1 = linked m" by (simp add: fun_eq_iff linked_def m1_def)
    then show ?thesis using assms(1) by (simp add: rq_is_def)
  qed
  have chain: "successively (\<lambda>u v. rq_next m1 u = Some v) (Head # map Node q @ [Head])"
    using is1 unfolding rq_is_def
    by (auto elim: successively_mono simp: linked_def)
  then have first: "rq_next m1 Head = Some (hd (map Node q @ [Head]))"
    by (cases q) simp_all
  have "rq_walk (mem_heap m1) (task_P r) t q = rq_walk (mem_heap m) (task_P r) t q"
    by (rule rq_walk_heap_cong) (use assms(3) in \<open>simp add: m1_def\<close>)
  then have w: "rq_walk (mem_heap m1) (task_P r) t q = Inr q'" using assms(4) by simp
  from walk_refines[OF chain w assms(5)] obtain pre post where
    pp: "q = pre @ post" "q' = pre @ t # post"
    and lw: "list_for_each_rq n (mem_heap m1) (rq_next m1) (task_P r) Head
               (hd (map Node q @ [Head])) =
             Some (Inr (last (Head # map Node pre), hd (map Node post @ [Head])))"
    by blast
  define m' where "m' = list_add_between (Node t) (last (Head # map Node pre))
                          (hd (map Node post @ [Head])) m1"
  have run: "linked_add_task_to_rq n t m = Some (Inr m')"
    using assms(3) first lw
    by (simp add: linked_add_task_to_rq_def Let_def m1_def[symmetric] m'_def)
  have "rq_is m' q'"
    unfolding m'_def pp(2)
    by (rule list_add_between_inserts) (use is1 assms(2) pp(1) in simp_all)
  moreover have "mem_heap m' = (mem_heap m)(t \<mapsto> r\<lparr>state := MP2_TASK_READY\<rparr>)"
    by (simp add: m'_def m1_def list_add_between_def Let_def)
  moreover have "rq_next m' Head \<noteq> None"
    using \<open>rq_is m' q'\<close> by (cases q') (simp_all add: rq_is_def linked_def)
  ultimately show ?thesis using run by blast
qed

lemma linked_remove_refines:
  assumes "rq_is m q" and "t \<in> set q"
  shows "\<exists>m'. linked_remove_task_from_rq t m = Inr m' \<and> mem_heap m' = mem_heap m \<and>
           rq_is m' (remove1 t q)"
proof -
  from split_list_first[OF assms(2)] obtain pre post where
    q: "q = pre @ t # post" and np: "t \<notin> set pre" by blast
  have "remove1 t q = pre @ post" using q np by (simp add: remove1_append)
  then show ?thesis
    using list_del_removes[of m pre t post] assms(1) q
    by (simp add: linked_remove_task_from_rq_def)
qed


lemma mem_period_eq:
  assumes "\<And>x. map_option task_P (mem_heap m' x) = map_option task_P (mem_heap m x)"
  shows "mem_period m' = mem_period m"
proof
  fix a
  show "mem_period m' a = mem_period m a"
    using assms[of a]
    by (cases "mem_heap m a"; cases "mem_heap m' a") (auto simp: mem_period_def)
qed

lemma linked_add_keeps_inv:
  assumes "linked_inv h k f m q" and "h t \<noteq> None" and "t \<notin> set q" and "length q < n"
  shows "\<exists>m' q'. linked_add_task_to_rq n t m = Some (Inr m') \<and>
           linked_inv h (Suc k) (f(t := k)) m' q' \<and> set q' = insert t (set q) \<and>
           length q' = Suc (length q)"
proof -
  have is_q: "rq_is m q"
    and hp: "\<And>x. map_option task_P (mem_heap m x) = map_option task_P (h x)"
    and al: "\<And>c. c \<in> set q \<Longrightarrow> h c \<noteq> None \<and> f c < k"
    and so: "sorted_wrt (rq_before (mem_period m) f) q"
    using assms(1) by (auto simp: linked_inv_def)
  have alloc: "mem_heap m c \<noteq> None" if "c \<in> set q" for c
    using al[OF that] hp[of c] by auto
  obtain r where r: "mem_heap m t = Some r"
    using assms(2) hp[of t] by (cases "mem_heap m t") auto
  obtain q' where w: "rq_walk (mem_heap m) (task_P r) t q = Inr q'"
    using rq_walk_total[of q "mem_heap m"] alloc by blast
  from linked_add_refines[OF is_q assms(3) r w assms(4)] obtain m' where
    run: "linked_add_task_to_rq n t m = Some (Inr m')"
    and hm: "mem_heap m' = (mem_heap m)(t \<mapsto> r\<lparr>state := MP2_TASK_READY\<rparr>)"
    and is_q': "rq_is m' q'" by blast
  have hp': "map_option task_P (mem_heap m' x) = map_option task_P (mem_heap m x)" for x
    using r by (simp add: hm)
  have per: "mem_period m' = mem_period m" by (rule mem_period_eq) (rule hp')
  have srt: "sorted_wrt (rq_before (mem_period m) (f(t := k))) q' \<and> set q' = insert t (set q)"
  proof (rule rq_walk_sorted[OF w so, where n = k])
    show "(f(t := k)) t = k" by simp
    show "mem_period m t = task_P r" using r by (simp add: mem_period_def)
    fix c assume c: "c \<in> set q"
    then obtain rc where "mem_heap m c = Some rc" using alloc by auto
    moreover have "c \<noteq> t" using c assms(3) by auto
    ultimately show "(\<exists>r. mem_heap m c = Some r \<and> task_P r = mem_period m c) \<and> f c < k \<and>
                      (f(t := k)) c = f c"
      using al[OF c] by (simp add: mem_period_def)
  qed
  have len: "length q' = Suc (length q)"
  proof -
    have "distinct q" "distinct q'" using is_q is_q' by (simp_all add: rq_is_def)
    then have "length q' = card (set q')" "length q = card (set q)"
      by (simp_all add: distinct_card)
    then show ?thesis using srt assms(3) by simp
  qed
  have "linked_inv h (Suc k) (f(t := k)) m' q'"
    unfolding linked_inv_def
  proof (intro conjI allI ballI)
    show "rq_is m' q'" by (rule is_q')
    show "map_option task_P (mem_heap m' x) = map_option task_P (h x)" for x
      using hp' hp by simp
    show "h c \<noteq> None" if "c \<in> set q'" for c
      using that srt al assms(2) by auto
    show "(f(t := k)) c < Suc k" if "c \<in> set q'" for c
      using that srt al[of c] by (cases "c = t") (auto simp: less_Suc_eq)
    show "sorted_wrt (rq_before (mem_period m') (f(t := k))) q'"
      using srt per by simp
  qed
  then show ?thesis using run srt len by blast
qed

lemma linked_remove_keeps_inv:
  assumes "linked_inv h k f m q" and "t \<in> set q"
  shows "\<exists>m'. linked_remove_task_from_rq t m = Inr m' \<and>
           linked_inv h (Suc k) f m' (remove1 t q)"
proof -
  have is_q: "rq_is m q" using assms(1) by (simp add: linked_inv_def)
  from linked_remove_refines[OF is_q assms(2)] obtain m' where
    run: "linked_remove_task_from_rq t m = Inr m'" and hm: "mem_heap m' = mem_heap m"
    and is_q': "rq_is m' (remove1 t q)" by blast
  have per: "mem_period m' = mem_period m" by (rule mem_period_eq) (simp add: hm)
  have "linked_inv h (Suc k) f m' (remove1 t q)"
    using assms(1) is_q' hm per
    by (auto simp: linked_inv_def sorted_wrt_remove1 less_Suc_eq dest: notin_set_remove1)
  then show ?thesis using run by blast
qed

lemma linked_run_keeps_inv:
  assumes "linked_inv h k f m q" and "disciplined h ops mem" and "set mem = set q"
    and "length q + length ops < n"
  shows "\<exists>m' q'. linked_run n ops m = Some (Inr m') \<and>
           linked_inv h (k + length ops) (arrival ops k f) m' q'"
  using assms
proof (induction ops k f arbitrary: m q mem rule: arrival.induct)
  case (1 k f)
  then show ?case by auto
next
  case (2 t ops k f)
  have d: "h t \<noteq> None" "t \<notin> set q" "disciplined h ops (t # mem)"
    using "2.prems"(2,3) by auto
  have "length q < n" using "2.prems"(4) by simp
  from linked_add_keeps_inv[OF "2.prems"(1) d(1,2) this] obtain m1 q1 where
    a: "linked_add_task_to_rq n t m = Some (Inr m1)"
    and i: "linked_inv h (Suc k) (f(t := k)) m1 q1"
    and s: "set q1 = insert t (set q)" and l: "length q1 = Suc (length q)" by blast
  have "set (t # mem) = set q1" using s "2.prems"(3) by simp
  moreover have "length q1 + length ops < n" using l "2.prems"(4) by simp
  ultimately obtain m' q' where
    r: "linked_run n ops m1 = Some (Inr m')"
    and i': "linked_inv h (Suc k + length ops) (arrival ops (Suc k) (f(t := k))) m' q'"
    using "2.IH"[OF i d(3)] by blast
  have "linked_run n (Insert t # ops) m = Some (Inr m')" using a r by simp
  moreover have "linked_inv h (k + length (Insert t # ops)) (arrival (Insert t # ops) k f) m' q'"
    using i' by (simp only: arrival.simps list.size add_Suc add_Suc_right add_0_right One_nat_def)
  ultimately show ?case by blast
next
  case (3 t ops k f)
  have d: "t \<in> set q" "disciplined h ops (removeAll t mem)"
    using "3.prems"(2,3) by auto
  from linked_remove_keeps_inv[OF "3.prems"(1) d(1)] obtain m1 where
    a: "linked_remove_task_from_rq t m = Inr m1"
    and i: "linked_inv h (Suc k) f m1 (remove1 t q)" by blast
  have dq: "distinct q" using "3.prems"(1) by (simp add: linked_inv_def rq_is_def)
  have "set (removeAll t mem) = set (remove1 t q)"
    using dq "3.prems"(3) by (simp add: set_remove1_eq)
  moreover have "length (remove1 t q) + length ops < n"
    using "3.prems"(4) d(1) by (simp add: length_remove1)
  ultimately obtain m' q' where
    r: "linked_run n ops m1 = Some (Inr m')"
    and i': "linked_inv h (Suc k + length ops) (arrival ops (Suc k) f) m' q'"
    using "3.IH"[OF i d(2)] by blast
  have "linked_run n (Remove t # ops) m = Some (Inr m')" using a r by simp
  moreover have "linked_inv h (k + length (Remove t # ops)) (arrival (Remove t # ops) k f) m' q'"
    using i' by (simp only: arrival.simps list.size add_Suc add_Suc_right add_0_right One_nat_def)
  ultimately show ?case by blast
qed

text \<open>
  Claim C5, as the code has it. Take the initialised empty run queue and any sequence of
  \<open>mp2_add_task_to_rq\<close> and \<open>mp2_remove_task_from_rq\<close> on allocated records in which no
  record is inserted while it is on the run queue and none is removed while it is not.
  Every operation returns (with fuel for the walks beyond the length of the sequence), and
  the links are then a circular doubly linked list of records sorted by ascending period,
  records of equal period in the order of their insertion.
\<close>

theorem linked_run_queue_sorted_fifo:
  assumes "disciplined h ops []" and "length ops < n"
  shows "\<exists>m q. linked_run n ops (INIT_LIST_HEAD h) = Some (Inr m) \<and> rq_is m q \<and>
           sorted (map (mem_period m) q) \<and>
           sorted_wrt (\<lambda>a b. mem_period m a = mem_period m b \<longrightarrow>
                         arrival ops 0 (\<lambda>a. 0) a < arrival ops 0 (\<lambda>a. 0) b) q"
proof -
  have "linked_inv h 0 (\<lambda>a. 0) (INIT_LIST_HEAD h) []"
    by (simp add: linked_inv_def rq_is_def linked_def INIT_LIST_HEAD_def)
  from linked_run_keeps_inv[OF this assms(1), of n] assms(2) obtain m q where
    run: "linked_run n ops (INIT_LIST_HEAD h) = Some (Inr m)"
    and inv: "linked_inv h (0 + length ops) (arrival ops 0 (\<lambda>a. 0)) m q"
    by auto
  then have lex: "sorted_wrt (rq_before (mem_period m) (arrival ops 0 (\<lambda>a. 0))) q"
    and is_q: "rq_is m q"
    by (simp_all add: linked_inv_def)
  have "sorted_wrt (\<lambda>a b. mem_period m a \<le> mem_period m b) q"
    by (rule sorted_wrt_mono_rel[OF _ lex]) (auto simp: rq_before_def)
  moreover have "sorted_wrt (\<lambda>a b. mem_period m a = mem_period m b \<longrightarrow>
                       arrival ops 0 (\<lambda>a. 0) a < arrival ops 0 (\<lambda>a. 0) b) q"
    by (rule sorted_wrt_mono_rel[OF _ lex]) (auto simp: rq_before_def)
  ultimately show ?thesis using run is_q by (auto simp: sorted_map)
qed


lemma rq_is_unique_from:
  assumes "successively (\<lambda>u v. nx u = Some v) (a # map Node q @ [Head])"
    and "successively (\<lambda>u v. nx u = Some v) (a # map Node q' @ [Head])"
  shows "q = q'"
  using assms
proof (induction q arbitrary: a q')
  case Nil
  then show ?case by (cases q') auto
next
  case (Cons x xs)
  then obtain y ys where q': "q' = y # ys" by (cases q') auto
  then have "y = x" using Cons.prems by simp
  moreover have "xs = ys" using Cons.prems q' by (intro Cons.IH[of "Node x"]) auto
  ultimately show ?case using q' by simp
qed

lemma rq_is_unique: "rq_is m q \<Longrightarrow> rq_is m q' \<Longrightarrow> q = q'"
  unfolding rq_is_def
  by (rule rq_is_unique_from[of "rq_next m" Head])
     (auto elim: successively_mono simp: linked_def)

lemma rq_demo_linked_run:
  "\<exists>m. linked_run 6 [Insert 0, Insert 1, Insert 2, Remove 1, Insert 1]
          (INIT_LIST_HEAD (heap rq_demo)) = Some (Inr m) \<and>
     rq_is m [1, 0, 2]"
  by (simp add: INIT_LIST_HEAD_def rq_demo_def mp2_init_module_def linked_add_task_to_rq_def
      list_add_between_def Let_def linked_remove_task_from_rq_def list_del_def rq_is_def linked_def
      list_for_each_rq_numeral)

theorem linked_run_queue_sorted_fifo_witness:
  "disciplined (heap rq_demo) [Insert 0, Insert 1, Insert 2, Remove 1, Insert 1] [] \<and>
   length [Insert 0, Insert 1, Insert 2, Remove 1, Insert 1] < 6 \<and>
   (\<exists>m. linked_run 6 [Insert 0, Insert 1, Insert 2, Remove 1, Insert 1]
          (INIT_LIST_HEAD (heap rq_demo)) = Some (Inr m) \<and>
      rq_is m [1, 0, 2] \<and>
      sorted (map (mem_period m) [1, 0, 2]) \<and>
      sorted_wrt (\<lambda>a b. mem_period m a = mem_period m b \<longrightarrow>
         arrival [Insert 0, Insert 1, Insert 2, Remove 1, Insert 1] 0 (\<lambda>a. 0) a
         < arrival [Insert 0, Insert 1, Insert 2, Remove 1, Insert 1] 0 (\<lambda>a. 0) b) [1, 0, 2])"
proof -
  have d: "disciplined (heap rq_demo) [Insert 0, Insert 1, Insert 2, Remove 1, Insert 1] []"
    by (simp add: rq_demo_def mp2_init_module_def)
  have l: "length [Insert 0, Insert 1, Insert 2, Remove 1, Insert 1] < 6" by simp
  from rq_demo_linked_run obtain m0 where
    r0: "linked_run 6 [Insert 0, Insert 1, Insert 2, Remove 1, Insert 1]
          (INIT_LIST_HEAD (heap rq_demo)) = Some (Inr m0)"
    and q0: "rq_is m0 [1, 0, 2]" by blast
  from linked_run_queue_sorted_fifo[OF d l] obtain m q where
    r: "linked_run 6 [Insert 0, Insert 1, Insert 2, Remove 1, Insert 1]
          (INIT_LIST_HEAD (heap rq_demo)) = Some (Inr m)"
    and q: "rq_is m q"
    and s: "sorted (map (mem_period m) q)"
      "sorted_wrt (\<lambda>a b. mem_period m a = mem_period m b \<longrightarrow>
         arrival [Insert 0, Insert 1, Insert 2, Remove 1, Insert 1] 0 (\<lambda>a. 0) a
         < arrival [Insert 0, Insert 1, Insert 2, Remove 1, Insert 1] 0 (\<lambda>a. 0) b) q"
    by blast
  have "m = m0" using r r0 by simp
  then have "q = [1, 0, 2]" using q q0 rq_is_unique by blast
  then show ?thesis using d l r q s by blast
qed

text \<open>
  Outside that discipline the functions return normally and the list is lost. Inserting
  record 0 twice makes it its own successor; the walk of the next insertion then never
  ends.
\<close>

lemma walk_of_self_loop:
  assumes "h c = Some ct" and "\<not> p < task_P ct" and "nx (Node c) = Some (Node c)"
  shows "list_for_each_rq n h nx p prev (Node c) = None"
  using assms by (induction n arbitrary: prev) simp_all

lemma relink_demo:
  "\<exists>m. linked_run 2 [Insert 0, Insert 0] (INIT_LIST_HEAD (heap rq_demo)) = Some (Inr m) \<and>
     rq_next m Head = Some (Node 0) \<and> rq_next m (Node 0) = Some (Node 0) \<and>
     map_option task_P (mem_heap m 0) = Some 50 \<and> map_option task_P (mem_heap m 2) = Some 50"
  by (simp add: INIT_LIST_HEAD_def rq_demo_def mp2_init_module_def linked_add_task_to_rq_def
      list_add_between_def Let_def list_for_each_rq_numeral)

text \<open>
  Claim C5 as stated fails: the sequence of two insertions of record 0 returns normally
  and leaves \<open>mp2_rq.next\<close> at record 0 and the \<open>next\<close> of record 0 at record 0 itself.
  The links are the run queue of no list of records, and an insertion of record 2 (of
  the same period) walks from record 0 to record 0 without end.
\<close>

theorem relinked_run_queue_counterexample:
  "\<exists>m. linked_run 2 [Insert 0, Insert 0] (INIT_LIST_HEAD (heap rq_demo)) = Some (Inr m) \<and>
     rq_next m Head = Some (Node 0) \<and> rq_next m (Node 0) = Some (Node 0) \<and>
     (\<forall>q. \<not> rq_is m q) \<and>
     (\<forall>n. linked_add_task_to_rq n 2 m = None)"
proof -
  from relink_demo obtain m where
    r: "linked_run 2 [Insert 0, Insert 0] (INIT_LIST_HEAD (heap rq_demo)) = Some (Inr m)"
    and h: "rq_next m Head = Some (Node 0)" and l: "rq_next m (Node 0) = Some (Node 0)"
    and p0: "map_option task_P (mem_heap m 0) = Some 50"
    and p2: "map_option task_P (mem_heap m 2) = Some 50"
    by blast
  have no: "\<not> rq_is m q" for q
  proof
    assume a: "rq_is m q"
    then have c: "successively (\<lambda>u v. rq_next m u = Some v) (Head # map Node q @ [Head])"
      unfolding rq_is_def by (auto elim: successively_mono simp: linked_def)
    have d: "distinct q" using a by (simp add: rq_is_def)
    show False
    proof (cases q)
      case Nil
      then show False using c h by simp
    next
      case (Cons x xs)
      then have x: "x = 0" using c h by simp
      show False
      proof (cases xs)
        case Nil
        then show False using c Cons x l by simp
      next
        case (Cons y ys)
        then have "y = 0" using c \<open>q = x # xs\<close> x l by simp
        then show False using d \<open>q = x # xs\<close> x Cons by simp
      qed
    qed
  qed
  have hang: "linked_add_task_to_rq n 2 m = None" for n
  proof -
    obtain r0 where r0: "mem_heap m 0 = Some r0" "task_P r0 = 50" using p0 by auto
    obtain r2 where r2: "mem_heap m 2 = Some r2" "task_P r2 = 50" using p2 by auto
    have "list_for_each_rq n ((mem_heap m)(2 \<mapsto> r2\<lparr>state := MP2_TASK_READY\<rparr>))
            (rq_next m) 50 Head (Node 0) = None"
      by (rule walk_of_self_loop[where ct = r0]) (use r0 l in simp_all)
    then show ?thesis using r2 h by (simp add: linked_add_task_to_rq_def Let_def)
  qed
  show ?thesis using r h l no hang by blast
qed

text \<open>
  With the run queue [1, 0, 2] (periods 20, 50, 50), inserting record 0 again ends the
  walk at the head with record 2 as \<open>prev\<close>: the list from the head is then 1, 0 and
  record 2, READY, is no longer reached.
\<close>

lemma relink_drops_later_entry:
  "\<exists>m. linked_run 4 [Insert 1, Insert 0, Insert 2, Insert 0]
          (INIT_LIST_HEAD (heap rq_demo)) = Some (Inr m) \<and>
     rq_next m Head = Some (Node 1) \<and> rq_next m (Node 1) = Some (Node 0) \<and>
     rq_next m (Node 0) = Some Head \<and>
     rq_prev m Head = Some (Node 0) \<and> rq_prev m (Node 0) = Some (Node 2) \<and>
     map_option state (mem_heap m 2) = Some MP2_TASK_READY"
  by (simp add: INIT_LIST_HEAD_def rq_demo_def mp2_init_module_def linked_add_task_to_rq_def
      list_add_between_def Let_def list_for_each_rq_numeral)

text \<open>
  The module state keeps the run queue as the list of its records. While the links are
  that list, \<open>mp2_add_task_to_rq\<close> and \<open>mp2_remove_task_from_rq\<close> of the module state
  compute what the functions on the links compute. Where \<open>mp2_add_task_to_rq\<close> of the
  module state stops with \<open>ListCorruption\<close>, because the record is on the run queue, the
  function on the links returns normally, with links as in the two examples above
  (\<open>relinking_returns\<close>, \<open>relinking_breaks_list\<close>).
\<close>

lemma add_task_to_rq_refined:
  assumes "mp2_add_task_to_rq t s = Inr s'" and "mem_heap m = heap s"
    and "rq_is m (mp2_rq s)" and "length (mp2_rq s) < n"
  shows "\<exists>m'. linked_add_task_to_rq n t m = Some (Inr m') \<and> mem_heap m' = heap s' \<and>
           rq_is m' (mp2_rq s')"
proof -
  from assms(1) obtain r where r: "heap s t = Some r"
    by (cases "heap s t") (simp_all add: mp2_add_task_to_rq_def)
  from assms(1) r have nin: "t \<notin> set (mp2_rq s)"
    by (cases "t \<in> set (mp2_rq s)") (simp_all add: mp2_add_task_to_rq_def)
  from assms(1) r nin obtain q where q: "rq_walk (heap s) (task_P r) t (mp2_rq s) = Inr q"
    by (cases "rq_walk (heap s) (task_P r) t (mp2_rq s)") (simp_all add: mp2_add_task_to_rq_def)
  from assms(1) r nin q
  have s': "s' = s\<lparr>heap := (heap s)(t \<mapsto> r\<lparr>state := MP2_TASK_READY\<rparr>), mp2_rq := q\<rparr>"
    by (simp add: mp2_add_task_to_rq_def)
  have "\<exists>m'. linked_add_task_to_rq n t m = Some (Inr m') \<and>
           mem_heap m' = (mem_heap m)(t \<mapsto> r\<lparr>state := MP2_TASK_READY\<rparr>) \<and>
           rq_next m' Head \<noteq> None \<and> rq_is m' q"
    by (rule linked_add_refines) (use assms(2,3,4) r nin q in simp_all)
  then show ?thesis using s' assms(2) by auto
qed

lemma remove_task_from_rq_refined:
  assumes "mp2_remove_task_from_rq t s = Inr s'" and "mem_heap m = heap s"
    and "rq_is m (mp2_rq s)"
  shows "\<exists>m'. linked_remove_task_from_rq t m = Inr m' \<and> mem_heap m' = heap s' \<and>
           rq_is m' (mp2_rq s')"
proof -
  from assms(1) have t: "t \<in> set (mp2_rq s)" and s': "s' = s\<lparr>mp2_rq := remove1 t (mp2_rq s)\<rparr>"
    by (cases "t \<in> set (mp2_rq s)"; simp add: mp2_remove_task_from_rq_def)+
  from linked_remove_refines[OF assms(3) t] show ?thesis using s' assms(2) by auto
qed

lemma relinking_returns:
  assumes "rq_is m q" and "t \<in> set q" and "mem_heap m t = Some r"
    and "\<And>c. c \<in> set q \<Longrightarrow> mem_heap m c \<noteq> None" and "length q < n"
  shows "\<exists>m'. linked_add_task_to_rq n t m = Some (Inr m')"
proof -
  define m1 where "m1 = m\<lparr>mem_heap := (mem_heap m)(t \<mapsto> r\<lparr>state := MP2_TASK_READY\<rparr>)\<rparr>"
  have chain: "successively (\<lambda>u v. rq_next m1 u = Some v) (Head # map Node q @ [Head])"
    using assms(1) unfolding rq_is_def
    by (auto elim: successively_mono simp: linked_def m1_def)
  then have first: "rq_next m1 Head = Some (hd (map Node q @ [Head]))"
    by (cases q) simp_all
  have "mem_heap m1 c \<noteq> None" if "c \<in> set q" for c
    using assms(4)[OF that] by (simp add: m1_def)
  then obtain q' where w: "rq_walk (mem_heap m1) (task_P r) t q = Inr q'"
    using rq_walk_total[of q "mem_heap m1"] by blast
  from walk_refines[OF chain w assms(5)] obtain pre post where
    "list_for_each_rq n (mem_heap m1) (rq_next m1) (task_P r) Head
               (hd (map Node q @ [Head])) =
             Some (Inr (last (Head # map Node pre), hd (map Node post @ [Head])))"
    by blast
  then show ?thesis
    using assms(3) first
    by (simp add: linked_add_task_to_rq_def Let_def m1_def[symmetric])
qed

text \<open>
  Linking a record that is on a run queue sorted by period: the function returns, and
  the links it leaves are the links of no list. The record before the re-linked one
  still points at it, while its \<open>prev\<close> now names the node the walk stopped behind.
\<close>

lemma walk_takeWhile:
  assumes "successively (\<lambda>u v. nx u = Some v) (a # map Node xs @ [Head])"
    and "\<And>x. x \<in> set xs \<Longrightarrow> \<exists>r. h x = Some r \<and> task_P r = hp x" and "length xs < n"
  shows "list_for_each_rq n h nx p a (hd (map Node xs @ [Head])) =
           Some (Inr (last (a # map Node (takeWhile (\<lambda>x. \<not> p < hp x) xs)),
                      hd (map Node (dropWhile (\<lambda>x. \<not> p < hp x) xs) @ [Head])))"
  using assms
proof (induction xs arbitrary: a n)
  case Nil
  then obtain k where "n = Suc k" by (cases n) auto
  then show ?case by simp
next
  case (Cons x xs)
  from Cons.prems(3) obtain k where k: "n = Suc k" "length xs < k" by (cases n) auto
  from Cons.prems(2)[of x] obtain ct where ct: "h x = Some ct" "task_P ct = hp x" by auto
  show ?case
  proof (cases "p < hp x")
    case True
    then show ?thesis using ct k by simp
  next
    case False
    have nxt: "nx (Node x) = Some (hd (map Node xs @ [Head]))"
      using Cons.prems(1) by (cases xs) simp_all
    have chain: "successively (\<lambda>u v. nx u = Some v) (Node x # map Node xs @ [Head])"
      using Cons.prems(1) by simp
    have "list_for_each_rq k h nx p (Node x) (hd (map Node xs @ [Head])) =
           Some (Inr (last (Node x # map Node (takeWhile (\<lambda>x. \<not> p < hp x) xs)),
                      hd (map Node (dropWhile (\<lambda>x. \<not> p < hp x) xs) @ [Head])))"
      by (rule Cons.IH[OF chain _ k(2)]) (use Cons.prems(2) in auto)
    then show ?thesis using False ct k nxt by simp
  qed
qed

lemma chain_prefix_forced:
  assumes "successively (\<lambda>u v. nx u = Some v) (a # map Node q' @ [Head])"
    and "successively (\<lambda>u v. nx u = Some v) (a # map Node xs)"
  shows "\<exists>rest. q' = xs @ rest"
  using assms
proof (induction xs arbitrary: a q')
  case Nil
  then show ?case by simp
next
  case (Cons x xs)
  then obtain y ys where q': "q' = y # ys" by (cases q') auto
  then have "y = x" using Cons.prems by simp
  moreover have "\<exists>rest. ys = xs @ rest"
    using Cons.prems q' by (intro Cons.IH[of "Node x"]) auto
  ultimately show ?case using q' by auto
qed

lemma chain_cong:
  assumes "successively (\<lambda>u v. f u = Some v) (xs @ [z])"
    and "\<And>u. u \<in> set xs \<Longrightarrow> g u = f u"
  shows "successively (\<lambda>u v. g u = Some v) (xs @ [z])"
  using assms
proof (induction xs)
  case Nil
  then show ?case by simp
next
  case (Cons x xs)
  then show ?case by (cases xs) simp_all
qed

lemma relinking_breaks_list:
  assumes "rq_is m q" and "sorted (map (mem_period m) q)" and "t \<in> set q"
    and "\<And>c. c \<in> set q \<Longrightarrow> mem_heap m c \<noteq> None" and "length q < n"
  shows "\<exists>m'. linked_add_task_to_rq n t m = Some (Inr m') \<and> (\<forall>q'. \<not> rq_is m' q')"
proof -
  obtain r where r: "mem_heap m t = Some r" using assms(3,4) by auto
  define m1 where "m1 = m\<lparr>mem_heap := (mem_heap m)(t \<mapsto> r\<lparr>state := MP2_TASK_READY\<rparr>)\<rparr>"
  define p where "p = task_P r"
  have pt: "mem_period m t = p" using r by (simp add: mem_period_def p_def)
  from split_list_first[OF assms(3)] obtain bt at where
    q: "q = bt @ t # at" and nbt: "t \<notin> set bt" by blast
  have dq: "distinct q" using assms(1) by (simp add: rq_is_def)
  have chain: "successively (\<lambda>u v. rq_next m u = Some v) (Head # map Node q @ [Head])"
    using assms(1) unfolding rq_is_def by (auto elim: successively_mono simp: linked_def)
  have first: "rq_next m1 Head = Some (hd (map Node q @ [Head]))"
    using chain by (cases q) (simp_all add: m1_def)
  have hp: "\<exists>rc. mem_heap m1 x = Some rc \<and> task_P rc = mem_period m x" if "x \<in> set q" for x
    using assms(4)[OF that] r by (cases "x = t") (auto simp: m1_def mem_period_def)
  have walk: "list_for_each_rq n (mem_heap m1) (rq_next m1) p Head (hd (map Node q @ [Head])) =
           Some (Inr (last (Head # map Node (takeWhile (\<lambda>x. \<not> p < mem_period m x) q)),
                      hd (map Node (dropWhile (\<lambda>x. \<not> p < mem_period m x) q) @ [Head])))"
    by (rule walk_takeWhile) (use chain hp assms(5) in \<open>simp_all add: m1_def\<close>)
  have le: "mem_period m x \<le> p" if "x \<in> set bt" for x
    using assms(2) that pt by (auto simp: q sorted_append)
  then have tw: "takeWhile (\<lambda>x. \<not> p < mem_period m x) q =
                 bt @ t # takeWhile (\<lambda>x. \<not> p < mem_period m x) at"
    using pt by (auto simp: q takeWhile_append2 not_less)
  define rest where "rest = takeWhile (\<lambda>x. \<not> p < mem_period m x) at"
  define x where "x = last (t # rest)"
  define pl where "pl = Node x"
  define c where "c = hd (map Node (dropWhile (\<lambda>x. \<not> p < mem_period m x) q) @ [Head])"
  have pl_eq: "last (Head # map Node (takeWhile (\<lambda>x. \<not> p < mem_period m x) q)) = pl"
    by (simp add: tw rest_def[symmetric] pl_def x_def last_map)
  have x_in: "x = t \<or> x \<in> set at"
  proof (cases rest)
    case Nil
    then show ?thesis by (simp add: x_def)
  next
    case (Cons y ys)
    then have "x \<in> set rest" by (simp add: x_def)
    then show ?thesis by (auto simp: rest_def dest: set_takeWhileD)
  qed
  define m' where "m' = list_add_between (Node t) pl c m1"
  have walk': "list_for_each_rq n (mem_heap m1) (rq_next m1) p Head (hd (map Node q @ [Head])) =
           Some (Inr (pl, c))"
    using walk unfolding pl_eq c_def .
  have run: "linked_add_task_to_rq n t m = Some (Inr m')"
    using r first walk'
    by (simp add: linked_add_task_to_rq_def Let_def m1_def[symmetric] p_def[symmetric] m'_def)
  have nx: "rq_next m' = ((rq_next m)(Node t \<mapsto> c))(pl \<mapsto> Node t)"
    and pv: "rq_prev m' (Node t) = Some pl"
    by (simp_all add: m'_def m1_def list_add_between_def Let_def)
  define w where "w = last (Head # map Node bt)"
  have w_cases: "w = Head \<or> w \<in> Node ` set bt"
  proof (cases bt)
    case Nil
    then show ?thesis by (simp add: w_def)
  next
    case (Cons y ys)
    then have "last bt \<in> set bt" by simp
    then show ?thesis using Cons by (auto simp: w_def last_map)
  qed
  have x_bt: "x \<notin> set bt" using x_in nbt dq by (auto simp: q)
  have w_pl: "w \<noteq> pl" using w_cases x_bt by (auto simp: pl_def)
  have no: "\<not> rq_is m' q'" for q'
  proof
    assume a: "rq_is m' q'"
    then have c': "successively (\<lambda>u v. rq_next m' u = Some v) (Head # map Node q' @ [Head])"
      unfolding rq_is_def by (auto elim: successively_mono simp: linked_def)
    have "Head # map Node q @ [Head] =
            ((Head # map Node bt) @ [Node t]) @ (map Node at @ [Head])"
      by (simp add: q)
    then have "successively (\<lambda>u v. rq_next m u = Some v)
                 (((Head # map Node bt) @ [Node t]) @ (map Node at @ [Head]))"
      using chain by (simp only:)
    then have old: "successively (\<lambda>u v. rq_next m u = Some v) ((Head # map Node bt) @ [Node t])"
      by (simp only: successively_append_iff)
    have "successively (\<lambda>u v. rq_next m' u = Some v) ((Head # map Node bt) @ [Node t])"
    proof (rule chain_cong[OF old])
      fix u assume u: "u \<in> set (Head # map Node bt)"
      then have "u \<noteq> Node t" using nbt by auto
      moreover have "u \<noteq> pl" using u x_bt by (auto simp: pl_def)
      ultimately show "rq_next m' u = rq_next m u" by (simp add: nx)
    qed
    then have new: "successively (\<lambda>u v. rq_next m' u = Some v) (Head # map Node (bt @ [t]))"
      by simp
    from chain_prefix_forced[OF c' new] obtain rest' where q': "q' = (bt @ [t]) @ rest'" by blast
    have "successively (linked m') (Head # map Node q' @ [Head])"
      using a by (simp add: rq_is_def)
    then have "successively (linked m') ((Head # map Node bt) @ (Node t # map Node rest' @ [Head]))"
      by (simp add: q')
    then have "linked m' w (Node t)"
      by (simp add: successively_append_iff w_def del: append_Cons)
    then have "rq_prev m' (Node t) = Some w" by (simp add: linked_def)
    then show False using pv w_pl by simp
  qed
  show ?thesis using run no by blast
qed

section \<open>Admission control\<close>

lemma unat_ucast_32_64: "unat (ucast (x :: 32 word) :: 64 word) = unat x"
proof -
  have "uint (ucast x :: 64 word) = uint x"
    by (rule uint_up_ucast) (simp add: is_up)
  then show ?thesis by (simp only: unat_eq_nat_uint)
qed

lemma sless_693: 
  assumes "unat (u :: 64 word) < 2 ^ 63" shows "(693 <s u) = (693 < unat u)"
proof -
  have "int (unat u) < 2 ^ 63" using assms by (simp only: of_nat_less_numeral_power_cancel_iff)
  then have "uint u < 2 ^ 63" by (simp only: flip: uint_nat)
  moreover have "- (2 ^ 63) \<le> uint u" 
    by (rule order_trans[of _ 0]) simp_all
  ultimately have "signed_take_bit 63 (uint u) = uint u"
    by (rule signed_take_bit_int_eq_self[rotated])
  then have "sint u = uint u"
    by (simp add: sint_uint)
  moreover have "sint (693 :: 64 word) = 693" by simp
  ultimately have "(693 <s u) = (693 < uint u)" by (simp only: word_sless_alt)
  also have "\<dots> = (693 < unat u)" unfolding uint_nat by linarith
  finally show ?thesis .
qed

lemma util_word: 
  assumes "unat c * 1000 < 2 ^ 32"
  shows "unat ((c * 1000) div (p::32 word)) = (1000 * unat c) div unat p"
proof -
  have "unat (1000 :: 32 word) = 1000" by simp
  then have "unat c * unat (1000 :: 32 word) < 2 ^ LENGTH(32)" using assms by simp
  then have "unat (c * 1000) = unat c * unat (1000 :: 32 word)"
    by (simp only: unat_mult_lem)
  then show ?thesis by (simp add: unat_div mult.commute)
qed

lemma sum_utilization_nat:
  assumes "\<forall>t \<in> set ts. \<exists>r. h t = Some r \<and> task_P r \<noteq> 0 \<and> no_wrap (task_C r)"
    and "unat acc + length ts * 2 ^ 32 < 2 ^ 64"
  shows "\<exists>u. sum_utilization h acc ts = Inr u \<and>
             unat u = unat acc + sum_list (map (\<lambda>r. util (task_C r) (task_P r)) (List.map_filter h ts)) \<and>
             unat u \<le> unat acc + length ts * 2 ^ 32"
  using assms
proof (induction ts arbitrary: acc)
  case Nil
  then show ?case by (simp add: List.map_filter_simps)
next
  case (Cons t ts)
  then obtain r where r: "h t = Some r" "task_P r \<noteq> 0" "no_wrap (task_C r)" by auto
  define x where "x = (task_C r * 1000) div task_P r"
  have ux: "unat x = util (task_C r) (task_P r)"
    using r(3) unfolding x_def util_def no_wrap_def by (rule util_word)
  have xb: "unat x < 2 ^ 32" using unsigned_less[of x] by simp
  have cx: "unat (ucast x :: 64 word) = unat x" by (rule unat_ucast_32_64)
  have "unat acc + unat (ucast x :: 64 word) < 2 ^ LENGTH(64)"
    using Cons.prems(2) xb cx by simp
  then have "unat (acc + ucast x) = unat acc + unat (ucast x :: 64 word)"
    by (rule unat_add_lem[THEN iffD1])
  then have add: "unat (acc + ucast x) = unat acc + unat x"
    using cx by simp
  have "\<exists>u. sum_utilization h (acc + ucast x) ts = Inr u \<and>
             unat u = unat (acc + ucast x) + sum_list (map (\<lambda>r. util (task_C r) (task_P r)) (List.map_filter h ts)) \<and>
             unat u \<le> unat (acc + ucast x) + length ts * 2 ^ 32"
  proof (rule Cons.IH)
    show "\<forall>t \<in> set ts. \<exists>r. h t = Some r \<and> task_P r \<noteq> 0 \<and> no_wrap (task_C r)"
      using Cons.prems(1) by simp
    show "unat (acc + ucast x) + length ts * 2 ^ 32 < 2 ^ 64"
      using Cons.prems(2) xb add by simp
  qed
  then show ?case
    using r add ux xb by (auto simp: List.map_filter_simps x_def)
qed

lemma admission_control_nat:
  assumes "p \<noteq> 0" and "0 < mp2_sem s" and "no_wrap c" and "registry_in_range s"
  shows "mp2_admission_control c p s = Inr (scaled_utilization c p s \<le> 693)"
proof -
  define x where "x = (c * 1000) div p"
  have ux: "unat x = util c p"
    using assms(3) unfolding x_def util_def no_wrap_def by (rule util_word)
  have "unat x < 2 ^ 32" using unsigned_less[of x] by simp
  then have xb: "unat (ucast x :: 64 word) < 2 ^ 32" by (simp only: unat_ucast_32_64)
  have len: "length (mp2_task_struct_list s) < 2 ^ 31"
    using assms(4) by (simp add: registry_in_range_def)
  have "length (mp2_task_struct_list s) * 2 ^ 32 \<le> (2 ^ 31 - 1) * 2 ^ 32"
    using len by simp
  then have bound: "unat (ucast x :: 64 word) + length (mp2_task_struct_list s) * 2 ^ 32 < 2 ^ 63"
    using xb by simp
  then have "unat (ucast x :: 64 word) + length (mp2_task_struct_list s) * 2 ^ 32 < 2 ^ 64"
    by simp
  have rng: "\<forall>t \<in> set (mp2_task_struct_list s).
               \<exists>r. heap s t = Some r \<and> task_P r \<noteq> 0 \<and> no_wrap (task_C r)"
    using assms(4)
    by (auto simp: registry_in_range_def record_in_range_def list_all_iff split: option.splits)
  with \<open>unat (ucast x :: 64 word) + length (mp2_task_struct_list s) * 2 ^ 32 < 2 ^ 64\<close>
  obtain u where
    u: "sum_utilization (heap s) (ucast x) (mp2_task_struct_list s) = Inr u"
       "unat u = unat (ucast x :: 64 word) +
          sum_list (map (\<lambda>r. util (task_C r) (task_P r)) (List.map_filter (heap s) (mp2_task_struct_list s)))"
       "unat u \<le> unat (ucast x :: 64 word) + length (mp2_task_struct_list s) * 2 ^ 32"
    using sum_utilization_nat[of "mp2_task_struct_list s" "heap s" "ucast x"]
    by blast
  have "unat u < 2 ^ 63" using u(3) bound by linarith
  then have "(693 <s u) = (693 < unat u)" by (rule sless_693)
  moreover have "unat u = scaled_utilization c p s"
    using u(2) ux by (simp add: scaled_utilization_def registered_def unat_ucast_32_64)
  ultimately show ?thesis
    using assms(1,2) u(1) by (simp add: mp2_admission_control_def x_def not_less)
qed

text \<open>
  Claim C1, as the code has it. For a candidate with a non-zero period whose \<open>C*1000\<close>
  fits an \<open>unsigned int\<close>, a free semaphore and a registry of records in range,
  \<open>mp2_admission_control\<close> returns true exactly when the scaled utilization
  \<open>1000*C/P\<close> of the candidate plus that of every registered record is at most 693.
  \<open>mp2_register_process\<close> then links a new record with the candidate's pid, period and
  computation time at the tail of the registry exactly when that sum is at most 693 and
  \<open>find_task_by_pid\<close> finds the process; otherwise it leaves the module state as it
  was, with no record added.
\<close>

theorem admission_accepts_iff_within_bound:
  assumes "p \<noteq> 0" and "0 < mp2_sem s" and "no_wrap c" and "registry_in_range s"
  shows "mp2_admission_control c p s = Inr (scaled_utilization c p s \<le> 693) \<and>
         (\<exists>s'. mp2_register_process k j (Some a) pid' p c s = Inr s' \<and>
            (if scaled_utilization c p s \<le> 693 \<and> find_task_by_pid k pid' \<noteq> None
             then mp2_task_struct_list s' = mp2_task_struct_list s @ [a] \<and>
                  map_option pid (heap s' a) = Some pid' \<and>
                  map_option task_P (heap s' a) = Some p \<and>
                  map_option task_C (heap s' a) = Some c
             else s' = s))"
  using admission_control_nat[OF assms] assms(2)
  by (auto simp: mp2_register_process_def split: option.splits)

text \<open>
  Claim C1 as stated fails: a candidate within the bound (utilization 100) is not
  registered when \<open>find_task_by_pid\<close> does not find its process.
\<close>

theorem register_lookup_failure_counterexample:
  "scaled_utilization 10 100 mp2_init_module \<le> 693 \<and>
   mp2_task_struct_list mp2_init_module = [] \<and>
   (\<exists>s'. mp2_register_process
      \<lparr>find_task_by_pid = (\<lambda>p. None), msecs_to_jiffies = ucast\<rparr> 0 (Some 0) 1 100 10
      mp2_init_module = Inr s' \<and> mp2_task_struct_list s' = [])"
  by (simp add: scaled_utilization_def registered_def util_def List.map_filter_simps
      mp2_init_module_def mp2_register_process_def mp2_admission_control_def)

text \<open>
  Outside \<open>no_wrap\<close> the product \<open>C*1000\<close> wraps around: a candidate of
  utilization 2147484000 is admitted.
\<close>

lemma admission_wraps_at_large_computation_time:
  "scaled_utilization 4294968 2 mp2_init_module = 2147484000 \<and>
   mp2_admission_control 4294968 2 mp2_init_module = Inr True"
  by (simp add: scaled_utilization_def registered_def util_def List.map_filter_simps
      mp2_init_module_def mp2_admission_control_def)

text \<open>
  The scenario of the specification: tasks (P 50, C 10) and (P 100, C 10) are admitted, a
  third task (P 10, C 9) brings the sum to 1200 and is rejected without a record.
\<close>

lemma third_task_rejected:
  "\<exists>s. run kernel_1000hz [Register 0 0 1 50 10, Register 0 1 2 100 10] mp2_init_module
        = Some (Inr s) \<and>
     mp2_task_struct_list s = [0, 1] \<and>
     scaled_utilization 9 10 s = 1200 \<and>
     mp2_admission_control 9 10 s = Inr False \<and>
     mp2_register_process kernel_1000hz 0 (Some 2) 3 10 9 s = Inr s"
  by (simp add: mp2_register_process_def mp2_admission_control_def mp2_init_module_def
      kernel_1000hz_def scaled_utilization_def registered_def util_def
      List.map_filter_simps)

lemma one_task:
  "\<exists>s. run kernel_1000hz (take 1 two_tasks) mp2_init_module = Some (Inr s) \<and>
     mp2_sem s = 1 \<and> mp2_task_struct_list s = [0] \<and> mp2_rq s = [] \<and> mp2_current s = None \<and>
     heap s 0 = Some \<lparr>pid = 1, task = 1, wakeup_timer = None, task_C = 10, task_P = 100,
                      next_period = 100, state = MP2_TASK_SLEEPING\<rparr>"
  by (simp add: two_tasks_def mp2_register_process_def mp2_admission_control_def
      mp2_init_module_def kernel_1000hz_def)

theorem admission_accepts_iff_within_bound_witness:
  "\<exists>s. run kernel_1000hz (take 1 two_tasks) mp2_init_module = Some (Inr s) \<and>
     (50 :: 32 word) \<noteq> 0 \<and> 0 < mp2_sem s \<and> no_wrap 10 \<and> registry_in_range s \<and>
     scaled_utilization 10 50 s = 300 \<and>
     mp2_admission_control 10 50 s = Inr True \<and>
     (\<exists>s'. mp2_register_process kernel_1000hz 60 (Some 1) 2 50 10 s = Inr s' \<and>
           mp2_task_struct_list s' = [0, 1])"
proof -
  from one_task obtain s where s:
    "run kernel_1000hz (take 1 two_tasks) mp2_init_module = Some (Inr s)"
    "mp2_sem s = 1" "mp2_task_struct_list s = [0]"
    "heap s 0 = Some \<lparr>pid = 1, task = 1, wakeup_timer = None, task_C = 10, task_P = 100,
                      next_period = 100, state = MP2_TASK_SLEEPING\<rparr>"
    by blast
  have h: "(50 :: 32 word) \<noteq> 0" "0 < mp2_sem s" "no_wrap 10" "registry_in_range s"
    using s by (simp_all add: no_wrap_def registry_in_range_def record_in_range_def)
  have u: "scaled_utilization 10 50 s = 300"
    using s by (simp add: scaled_utilization_def registered_def util_def List.map_filter_simps)
  have f: "find_task_by_pid kernel_1000hz 2 \<noteq> None" by (simp add: kernel_1000hz_def)
  from admission_accepts_iff_within_bound[OF h, of kernel_1000hz 60 1 2]
  obtain s' where adm: "mp2_admission_control 10 50 s = Inr True"
    and reg: "mp2_register_process kernel_1000hz 60 (Some 1) 2 50 10 s = Inr s'"
    and lst: "mp2_task_struct_list s' = [0, 1]"
    using u f s(3) by auto
  show ?thesis
    by (rule exI[of _ s]) (use s(1) h u adm reg lst in blast)
qed

section \<open>The dispatcher cycle\<close>

text \<open>
  Claim C2, as the code has it. With R the current task and T the head of the run queue:
  when R's period is not greater than T's the cycle changes nothing; otherwise the cycle
  lowers R to \<open>SCHED_NORMAL\<close> priority 0, sets its process uninterruptible and its state
  to READY, then wakes T, raises it to \<open>SCHED_FIFO\<close> and makes it the current task. The
  run queue is the same list before and after: R is not inserted.
\<close>

theorem cycle_with_running_task:
  assumes "mp2_rq s = t # rest" and "heap s t = Some tr"
    and "mp2_current s = Some c" and "heap s c = Some cr"
  shows "(task_P cr \<le> task_P tr \<longrightarrow> mp2_sched_kthread_cycle k s = Inr s) \<and>
         (task_P tr < task_P cr \<longrightarrow>
            (\<exists>s'. mp2_sched_kthread_cycle k s = Inr s' \<and>
                  heap s' c = Some (cr\<lparr>state := MP2_TASK_READY\<rparr>) \<and>
                  mp2_rq s' = mp2_rq s \<and>
                  mp2_current s' = Some t \<and>
                  os_log s' = os_log s @
                    [Sched_setscheduler (task cr) SCHED_NORMAL 0,
                     Set_task_state (task cr) TASK_UNINTERRUPTIBLE,
                     Wake_up_process (task tr),
                     Sched_setscheduler (task tr) SCHED_FIFO (MAX_USER_RT_PRIO - 1)]))"
proof -
  have "c \<noteq> t" if "task_P tr < task_P cr"
    using that assms(2,4) by auto
  then show ?thesis
    using assms by (auto simp: mp2_sched_kthread_cycle_def dispatch_selected_def)
qed

lemma after_7:
  "\<exists>s. run kernel_1000hz (take 7 two_tasks) mp2_init_module = Some (Inr s) \<and>
     mp2_rq s = [1, 0] \<and> mp2_current s = Some 0 \<and> mp2_sem s = 1 \<and>
     mp2_task_struct_list s = [0, 1] \<and>
     heap s 0 = Some \<lparr>pid = 1, task = 1, wakeup_timer = None, task_C = 10, task_P = 100,
                      next_period = 200, state = MP2_TASK_RUNNING\<rparr> \<and>
     heap s 1 = Some \<lparr>pid = 2, task = 2, wakeup_timer = None, task_C = 10, task_P = 50,
                      next_period = 110, state = MP2_TASK_READY\<rparr>"
  by (simp add: two_tasks_def mp2_register_process_def mp2_admission_control_def
      mp2_yield_process_def mp2_sched_kthread_cycle_def dispatch_selected_def run_timer_def
      wakeup_timer_handler_def find_mp2_task_by_pid_def mp2_add_task_to_rq_def
      mp2_remove_task_from_rq_def current_has_pid_def yield_suspend_def mp2_init_module_def
      kernel_1000hz_def)

theorem cycle_with_running_task_witness:
  "\<exists>s. run kernel_1000hz (take 7 two_tasks) mp2_init_module = Some (Inr s) \<and>
     mp2_rq s = [1, 0] \<and> mp2_current s = Some 0 \<and>
     map_option task_P (heap s 1) = Some 50 \<and> map_option task_P (heap s 0) = Some 100 \<and>
     (\<exists>s'. mp2_sched_kthread_cycle kernel_1000hz s = Inr s' \<and>
           map_option state (heap s' 0) = Some MP2_TASK_READY \<and>
           mp2_rq s' = [1, 0] \<and> mp2_current s' = Some 1 \<and>
           os_log s' = os_log s @
             [Sched_setscheduler 1 SCHED_NORMAL 0, Set_task_state 1 TASK_UNINTERRUPTIBLE,
              Wake_up_process 2, Sched_setscheduler 2 SCHED_FIFO 99])"
proof -
  from after_7 obtain s where s:
    "run kernel_1000hz (take 7 two_tasks) mp2_init_module = Some (Inr s)"
    "mp2_rq s = [1, 0]" "mp2_current s = Some 0"
    "heap s 0 = Some \<lparr>pid = 1, task = 1, wakeup_timer = None, task_C = 10, task_P = 100,
                      next_period = 200, state = MP2_TASK_RUNNING\<rparr>"
    "heap s 1 = Some \<lparr>pid = 2, task = 2, wakeup_timer = None, task_C = 10, task_P = 50,
                      next_period = 110, state = MP2_TASK_READY\<rparr>"
    by blast
  from cycle_with_running_task[OF s(2) s(5) s(3) s(4), of kernel_1000hz]
  obtain s' where s': "mp2_sched_kthread_cycle kernel_1000hz s = Inr s'"
    "heap s' 0 = Some (\<lparr>pid = 1, task = 1, wakeup_timer = None, task_C = 10, task_P = 100,
                      next_period = 200, state = MP2_TASK_RUNNING\<rparr>\<lparr>state := MP2_TASK_READY\<rparr>)"
    "mp2_rq s' = mp2_rq s" "mp2_current s' = Some 1"
    "os_log s' = os_log s @
             [Sched_setscheduler 1 SCHED_NORMAL 0, Set_task_state 1 TASK_UNINTERRUPTIBLE,
              Wake_up_process 2, Sched_setscheduler 2 SCHED_FIFO 99]"
    by (auto simp: MAX_USER_RT_PRIO_def)
  show ?thesis
    by (rule exI[of _ s]) (use s s' in simp)
qed

text \<open>
  Claim C2 as stated fails: in the run of two tasks, when B (period 50) is released
  while A (period 100) is running, the run queue is [B, A] before the cycle that demotes
  A and [B, A] after it. A was left in the run queue when it was dispatched; the
  dispatcher performs no insertion, and \<open>mp2_add_task_to_rq\<close> on A, linked as it is,
  would break the list.
\<close>

theorem demotion_inserts_nothing_counterexample:
  "\<exists>s s'. run kernel_1000hz (take 7 two_tasks) mp2_init_module = Some (Inr s) \<and>
     mp2_current s = Some 0 \<and> map_option state (heap s 0) = Some MP2_TASK_RUNNING \<and>
     mp2_rq s = [1, 0] \<and>
     mp2_sched_kthread_cycle kernel_1000hz s = Inr s' \<and>
     map_option state (heap s' 0) = Some MP2_TASK_READY \<and>
     mp2_current s' = Some 1 \<and>
     mp2_rq s' = [1, 0] \<and>
     mp2_add_task_to_rq 0 s = Inl ListCorruption"
proof -
  from after_7 obtain s where s:
    "run kernel_1000hz (take 7 two_tasks) mp2_init_module = Some (Inr s)"
    "mp2_rq s = [1, 0]" "mp2_current s = Some 0"
    "heap s 0 = Some \<lparr>pid = 1, task = 1, wakeup_timer = None, task_C = 10, task_P = 100,
                      next_period = 200, state = MP2_TASK_RUNNING\<rparr>"
    "heap s 1 = Some \<lparr>pid = 2, task = 2, wakeup_timer = None, task_C = 10, task_P = 50,
                      next_period = 110, state = MP2_TASK_READY\<rparr>"
    by blast
  then have "\<exists>s'. mp2_sched_kthread_cycle kernel_1000hz s = Inr s' \<and>
     map_option state (heap s' 0) = Some MP2_TASK_READY \<and>
     mp2_current s' = Some 1 \<and> mp2_rq s' = [1, 0]"
    by (simp add: mp2_sched_kthread_cycle_def dispatch_selected_def)
  moreover have "mp2_add_task_to_rq 0 s = Inl ListCorruption"
    using s by (simp add: mp2_add_task_to_rq_def)
  ultimately show ?thesis using s by auto
qed

text \<open>
  Claim C3, as the code has it. When the run queue is not empty and no task is current,
  or the current task has a strictly longer period than the head T, the cycle wakes T's
  process, raises it to \<open>SCHED_FIFO\<close> at priority \<open>MAX_USER_RT_PRIO - 1\<close>, records T as
  the current task, sets its state to RUNNING and adds \<open>msecs_to_jiffies\<close> of its period
  to its next release. T stays at the head of the run queue, which the cycle does not
  change.
\<close>

theorem cycle_dispatches_head:
  assumes "mp2_rq s = t # rest" and "heap s t = Some tr"
  shows "(mp2_current s = None \<longrightarrow>
            (\<exists>s'. mp2_sched_kthread_cycle k s = Inr s' \<and>
                  mp2_rq s' = t # rest \<and>
                  mp2_current s' = Some t \<and>
                  heap s' = (heap s)(t \<mapsto> tr\<lparr>state := MP2_TASK_RUNNING,
                     next_period := next_period tr + msecs_to_jiffies k (task_P tr)\<rparr>) \<and>
                  os_log s' = os_log s @
                    [Wake_up_process (task tr),
                     Sched_setscheduler (task tr) SCHED_FIFO (MAX_USER_RT_PRIO - 1)])) \<and>
         (\<forall>c cr. mp2_current s = Some c \<and> heap s c = Some cr \<and> task_P tr < task_P cr \<longrightarrow>
            (\<exists>s'. mp2_sched_kthread_cycle k s = Inr s' \<and>
                  mp2_rq s' = t # rest \<and>
                  mp2_current s' = Some t \<and>
                  heap s' t = Some (tr\<lparr>state := MP2_TASK_RUNNING,
                     next_period := next_period tr + msecs_to_jiffies k (task_P tr)\<rparr>) \<and>
                  (\<exists>calls. os_log s' = os_log s @ calls @
                    [Wake_up_process (task tr),
                     Sched_setscheduler (task tr) SCHED_FIFO (MAX_USER_RT_PRIO - 1)])))"
proof -
  have "c \<noteq> t" if "task_P tr < task_P cr" "heap s c = Some cr" for c cr
    using that assms(2) by auto
  then show ?thesis
    using assms by (auto simp: mp2_sched_kthread_cycle_def dispatch_selected_def)
qed

lemma after_5:
  "\<exists>s. run kernel_1000hz (take 5 two_tasks) mp2_init_module = Some (Inr s) \<and>
     mp2_rq s = [0] \<and> mp2_current s = None \<and>
     heap s 0 = Some \<lparr>pid = 1, task = 1, wakeup_timer = None, task_C = 10, task_P = 100,
                      next_period = 100, state = MP2_TASK_READY\<rparr>"
  by (simp add: two_tasks_def mp2_register_process_def mp2_admission_control_def
      mp2_yield_process_def mp2_sched_kthread_cycle_def dispatch_selected_def run_timer_def
      wakeup_timer_handler_def find_mp2_task_by_pid_def mp2_add_task_to_rq_def
      mp2_remove_task_from_rq_def current_has_pid_def yield_suspend_def mp2_init_module_def
      kernel_1000hz_def)

theorem cycle_dispatches_head_witness:
  "\<exists>s. run kernel_1000hz (take 5 two_tasks) mp2_init_module = Some (Inr s) \<and>
     mp2_rq s = [0] \<and> mp2_current s = None \<and>
     (\<exists>s'. mp2_sched_kthread_cycle kernel_1000hz s = Inr s' \<and>
           mp2_rq s' = [0] \<and> mp2_current s' = Some 0 \<and>
           map_option state (heap s' 0) = Some MP2_TASK_RUNNING \<and>
           map_option next_period (heap s' 0) = Some 200 \<and>
           os_log s' = os_log s @ [Wake_up_process 1, Sched_setscheduler 1 SCHED_FIFO 99])"
proof -
  from after_5 obtain s where s:
    "run kernel_1000hz (take 5 two_tasks) mp2_init_module = Some (Inr s)"
    "mp2_rq s = [0]" "mp2_current s = None"
    "heap s 0 = Some \<lparr>pid = 1, task = 1, wakeup_timer = None, task_C = 10, task_P = 100,
                      next_period = 100, state = MP2_TASK_READY\<rparr>"
    by blast
  from cycle_dispatches_head[OF s(2) s(4), of kernel_1000hz] s(3)
  obtain s' where s': "mp2_sched_kthread_cycle kernel_1000hz s = Inr s'"
    "mp2_rq s' = [0]" "mp2_current s' = Some 0"
    "heap s' = (heap s)(0 \<mapsto> \<lparr>pid = 1, task = 1, wakeup_timer = None, task_C = 10, task_P = 100,
                      next_period = 100, state = MP2_TASK_READY\<rparr>\<lparr>state := MP2_TASK_RUNNING,
                     next_period := 100 + msecs_to_jiffies kernel_1000hz 100\<rparr>)"
    "os_log s' = os_log s @ [Wake_up_process 1, Sched_setscheduler 1 SCHED_FIFO (MAX_USER_RT_PRIO - 1)]"
    by auto
  show ?thesis
    by (rule exI[of _ s]) (use s s' in \<open>simp add: kernel_1000hz_def MAX_USER_RT_PRIO_def\<close>)
qed

text \<open>
  Claim C3 as stated fails: in the run of two tasks, the cycle that dispatches A from the
  run queue [A] leaves the run queue [A]; the head is not removed.
\<close>

theorem dispatch_keeps_head_counterexample:
  "\<exists>s s'. run kernel_1000hz (take 5 two_tasks) mp2_init_module = Some (Inr s) \<and>
     mp2_current s = None \<and> mp2_rq s = [0] \<and>
     mp2_sched_kthread_cycle kernel_1000hz s = Inr s' \<and>
     mp2_current s' = Some 0 \<and>
     map_option state (heap s' 0) = Some MP2_TASK_RUNNING \<and>
     mp2_rq s' = [0]"
proof -
  from after_5 obtain s where s:
    "run kernel_1000hz (take 5 two_tasks) mp2_init_module = Some (Inr s)"
    "mp2_rq s = [0]" "mp2_current s = None"
    "heap s 0 = Some \<lparr>pid = 1, task = 1, wakeup_timer = None, task_C = 10, task_P = 100,
                      next_period = 100, state = MP2_TASK_READY\<rparr>"
    by blast
  then have "\<exists>s'. mp2_sched_kthread_cycle kernel_1000hz s = Inr s' \<and>
     mp2_current s' = Some 0 \<and>
     map_option state (heap s' 0) = Some MP2_TASK_RUNNING \<and> mp2_rq s' = [0]"
    by (simp add: mp2_sched_kthread_cycle_def dispatch_selected_def)
  with s show ?thesis by auto
qed

section \<open>Membership in the run queue\<close>

lemma rq_walk_set: "rq_walk h p t q = Inr q' \<Longrightarrow> set q' = insert t (set q)"
proof (induction q arbitrary: q')
  case Nil
  then show ?case by auto
next
  case (Cons c cs)
  show ?case
  proof (cases "h c")
    case None
    then show ?thesis using Cons.prems by simp
  next
    case (Some ct)
    show ?thesis
    proof (cases "p < task_P ct")
      case True
      then show ?thesis using Cons.prems Some by auto
    next
      case False
      then obtain q'' where "rq_walk h p t cs = Inr q''" "q' = c # q''"
        using Cons.prems Some by (auto split: sum.splits)
      then show ?thesis using Cons.IH by auto
    qed
  qed
qed


lemma add_task_effect:
  assumes "mp2_add_task_to_rq t s = Inr s'"
  obtains r q where "heap s t = Some r" and "set q = insert t (set (mp2_rq s))"
    and "s' = s\<lparr>heap := (heap s)(t \<mapsto> r\<lparr>state := MP2_TASK_READY\<rparr>), mp2_rq := q\<rparr>"
proof -
  from assms obtain r where r: "heap s t = Some r"
    by (cases "heap s t") (simp_all add: mp2_add_task_to_rq_def)
  from assms r have nin: "t \<notin> set (mp2_rq s)"
    by (cases "t \<in> set (mp2_rq s)") (simp_all add: mp2_add_task_to_rq_def)
  from assms r nin obtain q where q: "rq_walk (heap s) (task_P r) t (mp2_rq s) = Inr q"
    by (cases "rq_walk (heap s) (task_P r) t (mp2_rq s)") (simp_all add: mp2_add_task_to_rq_def)
  from assms r nin q
  have s': "s' = s\<lparr>heap := (heap s)(t \<mapsto> r\<lparr>state := MP2_TASK_READY\<rparr>), mp2_rq := q\<rparr>"
    by (simp add: mp2_add_task_to_rq_def)
  from that[OF r rq_walk_set[OF q] s'] show ?thesis .
qed

lemma ready_queuedI:
  assumes "0 < mp2_sem s"
    and "\<And>t r. heap s t = Some r \<Longrightarrow> state r = MP2_TASK_READY \<Longrightarrow> t \<in> set (mp2_rq s)"
    and "\<And>c. mp2_current s = Some c \<Longrightarrow> c \<in> set (mp2_rq s)"
  shows "ready_queued s"
  using assms unfolding ready_queued_def by blast

lemma ready_queued_ready:
  "ready_queued s \<Longrightarrow> heap s t = Some r \<Longrightarrow> state r = MP2_TASK_READY \<Longrightarrow> t \<in> set (mp2_rq s)"
  unfolding ready_queued_def by blast

lemma ready_queued_current:
  "ready_queued s \<Longrightarrow> mp2_current s = Some c \<Longrightarrow> c \<in> set (mp2_rq s)"
  unfolding ready_queued_def by blast

lemma ready_queued_sem: "ready_queued s \<Longrightarrow> 0 < mp2_sem s"
  unfolding ready_queued_def by blast

lemma wake_keeps_ready_queued:
  assumes "mp2_add_task_to_rq t (s\<lparr>heap := (heap s)(t \<mapsto> r)\<rparr>) = Inr s'"
    and "ready_queued s"
  shows "ready_queued s'"
proof -
  from assms(1) obtain q where
    q: "set q = insert t (set (mp2_rq s))"
    and s': "s' = s\<lparr>heap := (heap s)(t \<mapsto> r\<lparr>state := MP2_TASK_READY\<rparr>), mp2_rq := q\<rparr>"
    by (rule add_task_effect) auto
  show ?thesis using assms(2) unfolding ready_queued_def s' by (simp add: q)
qed


lemma handler_keeps_ready_queued:
  assumes "wakeup_timer_handler p s = Inr s'" and "ready_queued s"
  shows "ready_queued s'"
proof (cases "find_mp2_task_by_pid s p")
  case (Inl e)
  then show ?thesis using assms(1) by (simp add: wakeup_timer_handler_def)
next
  case (Inr found)
  show ?thesis
  proof (cases found)
    case None
    then show ?thesis using assms Inr by (simp add: wakeup_timer_handler_def)
  next
    case (Some t)
    show ?thesis
    proof (cases "heap s t")
      case None
      then show ?thesis using assms(1) Inr Some by (simp add: wakeup_timer_handler_def)
    next
      case (Some r)
      with assms(1) Inr \<open>found = Some t\<close> obtain s1 where
        a: "mp2_add_task_to_rq t (s\<lparr>heap := (heap s)(t \<mapsto> r\<lparr>state := MP2_TASK_READY\<rparr>)\<rparr>) = Inr s1"
        and s': "s' = s1\<lparr>os_log := os_log s1 @ [Wake_up_interruptible]\<rparr>"
        by (cases "mp2_add_task_to_rq t (s\<lparr>heap := (heap s)(t \<mapsto> r\<lparr>state := MP2_TASK_READY\<rparr>)\<rparr>)")
           (simp_all add: wakeup_timer_handler_def)
      from wake_keeps_ready_queued[OF a assms(2)] show ?thesis
        unfolding s' ready_queued_def by simp
    qed
  qed
qed

lemma timer_keeps_ready_queued:
  assumes "run_timer j t s = Some (Inr s')" and "ready_queued s"
  shows "ready_queued s'"
proof -
  from assms(1) obtain r where r: "heap s t = Some r"
    by (cases "heap s t") (simp_all add: run_timer_def)
  from assms(1) r obtain e where e: "wakeup_timer r = Some e"
    by (cases "wakeup_timer r") (simp_all add: run_timer_def)
  from assms(1) r e
  have h: "wakeup_timer_handler (pid r) (s\<lparr>heap := (heap s)(t \<mapsto> r\<lparr>wakeup_timer := None\<rparr>)\<rparr>) = Inr s'"
    by (cases "e \<le> j") (simp_all add: run_timer_def)
  have "ready_queued (s\<lparr>heap := (heap s)(t \<mapsto> r\<lparr>wakeup_timer := None\<rparr>)\<rparr>)"
    using assms(2) r unfolding ready_queued_def by auto
  with h show ?thesis by (rule handler_keeps_ready_queued)
qed

lemma register_keeps_ready_queued:
  assumes "mp2_register_process k j (Some a) pid' p c s = Inr s'" and "heap s a = None"
    and "ready_queued s"
  shows "ready_queued s'"
  using assms unfolding mp2_register_process_def ready_queued_def
  by (cases "mp2_admission_control c p s"; cases "find_task_by_pid k pid'")
     (auto split: if_splits)

lemma deregister_keeps_ready_queued:
  assumes "mp2_deregister_process p s = Inr s'" and "ready_queued s"
  shows "ready_queued s'"
proof (cases "find_mp2_task_by_pid s p")
  case (Inl e)
  then show ?thesis using assms(1) by (simp add: mp2_deregister_process_def)
next
  case (Inr found)
  show ?thesis
  proof (cases found)
    case None
    then show ?thesis using assms Inr by (simp add: mp2_deregister_process_def)
  next
    case (Some t)
    show ?thesis
    proof (cases "heap s t")
      case None
      then show ?thesis using assms(1) Inr Some by (simp add: mp2_deregister_process_def)
    next
      case (Some r)
      have sem: "0 < mp2_sem s" using assms(2) by (simp add: ready_queued_def)
      show ?thesis
      proof (cases "t \<in> set (mp2_rq s)")
        case False
        then show ?thesis using assms(1) Inr \<open>found = Some t\<close> Some
          by (simp add: mp2_deregister_process_def mp2_remove_task_from_rq_def)
      next
        case True
        define s2 where "s2 = s\<lparr>mp2_rq := remove1 t (mp2_rq s),
                                 mp2_task_struct_list := remove1 t (mp2_task_struct_list s)\<rparr>"
        define s3 where "s3 = (if mp2_current s2 = Some t
                                then s2\<lparr>mp2_current := None,
                                        os_log := os_log s2 @ [Sched_setscheduler (task r) SCHED_NORMAL 0]\<rparr>
                                else s2)"
        have s': "s' = s3\<lparr>heap := (heap s3)(t := None), os_log := os_log s3 @ [Wake_up_interruptible]\<rparr>"
          using assms(1) Inr \<open>found = Some t\<close> Some sem True
          by (cases "mp2_current s = Some t")
             (auto simp: mp2_deregister_process_def mp2_remove_task_from_rq_def Let_def s2_def s3_def)
        have f3: "heap s3 = heap s" "mp2_rq s3 = remove1 t (mp2_rq s)" "mp2_sem s3 = mp2_sem s"
          "mp2_current s3 = (if mp2_current s = Some t then None else mp2_current s)"
          by (simp_all add: s3_def s2_def)
        show ?thesis
        proof (rule ready_queuedI)
          show "0 < mp2_sem s'" using sem by (simp add: s' f3)
        next
          fix u ru assume "heap s' u = Some ru" "state ru = MP2_TASK_READY"
          then have "u \<noteq> t" "heap s u = Some ru" by (auto simp: s' f3 split: if_splits)
          then have "u \<in> set (mp2_rq s)"
            using ready_queued_ready[OF assms(2)] \<open>state ru = MP2_TASK_READY\<close> by blast
          then show "u \<in> set (mp2_rq s')" using \<open>u \<noteq> t\<close> by (simp add: s' f3)
        next
          fix c assume "mp2_current s' = Some c"
          then have "c \<noteq> t" "mp2_current s = Some c" by (auto simp: s' f3 split: if_splits)
          then have "c \<in> set (mp2_rq s)" using ready_queued_current[OF assms(2)] by blast
          then show "c \<in> set (mp2_rq s')" using \<open>c \<noteq> t\<close> by (simp add: s' f3)
        qed
      qed
    qed
  qed
qed

lemma dispatch_selected_keeps_ready_queued:
  assumes "dispatch_selected k t s = Inr s'" and "t \<in> set (mp2_rq s)"
    and "0 < mp2_sem s"
    and "\<forall>u r. heap s u = Some r \<and> state r = MP2_TASK_READY \<longrightarrow> u \<in> set (mp2_rq s)"
  shows "ready_queued s'"
proof (cases "heap s t")
  case None
  then show ?thesis using assms(1) by (simp add: dispatch_selected_def)
next
  case (Some r)
  then have s': "s' = s\<lparr>heap := (heap s)(t \<mapsto>
                   r\<lparr>state := MP2_TASK_RUNNING,
                     next_period := next_period r + msecs_to_jiffies k (task_P r)\<rparr>),
                 mp2_current := Some t,
                 os_log := os_log s @
                   [Wake_up_process (task r),
                    Sched_setscheduler (task r) SCHED_FIFO (MAX_USER_RT_PRIO - 1)]\<rparr>"
    using assms(1) by (simp add: dispatch_selected_def)
  show ?thesis
  proof (rule ready_queuedI)
    show "0 < mp2_sem s'" using assms(3) by (simp add: s')
  next
    fix u ru assume "heap s' u = Some ru" "state ru = MP2_TASK_READY"
    then have "heap s u = Some ru" by (auto simp: s' split: if_splits)
    then show "u \<in> set (mp2_rq s')"
      using assms(4) \<open>state ru = MP2_TASK_READY\<close> by (auto simp: s')
  next
    fix c assume "mp2_current s' = Some c"
    then show "c \<in> set (mp2_rq s')" using assms(2) by (simp add: s')
  qed
qed

lemma cycle_keeps_ready_queued:
  assumes "mp2_sched_kthread_cycle k s = Inr s'" and "ready_queued s"
  shows "ready_queued s'"
proof (cases "mp2_rq s")
  case Nil
  then show ?thesis using assms by (simp add: mp2_sched_kthread_cycle_def)
next
  case (Cons t rest)
  have inv: "0 < mp2_sem s"
    "\<forall>u r. heap s u = Some r \<and> state r = MP2_TASK_READY \<longrightarrow> u \<in> set (mp2_rq s)"
    "\<forall>c. mp2_current s = Some c \<longrightarrow> c \<in> set (mp2_rq s)"
    using assms(2) by (simp_all add: ready_queued_def)
  have t: "t \<in> set (mp2_rq s)" using Cons by simp
  show ?thesis
  proof (cases "mp2_current s")
    case None
    then have "dispatch_selected k t s = Inr s'"
      using assms(1) Cons by (simp add: mp2_sched_kthread_cycle_def)
    then show ?thesis using t inv(1,2) by (rule dispatch_selected_keeps_ready_queued)
  next
    case (Some c)
    then have c: "c \<in> set (mp2_rq s)" using inv(3) by simp
    from assms(1) Cons Some obtain cr where cr: "heap s c = Some cr"
      by (cases "heap s c") (simp_all add: mp2_sched_kthread_cycle_def)
    from assms(1) Cons Some cr obtain tr where tr: "heap s t = Some tr"
      by (cases "heap s t") (simp_all add: mp2_sched_kthread_cycle_def)
    show ?thesis
    proof (cases "task_P tr < task_P cr")
      case False
      then have "s' = s"
        using assms(1) Cons Some cr tr by (simp add: mp2_sched_kthread_cycle_def)
      then show ?thesis using assms(2) by simp
    next
      case True
      define s1 where "s1 = s\<lparr>heap := (heap s)(c \<mapsto> cr\<lparr>state := MP2_TASK_READY\<rparr>),
                                mp2_current := None,
                                os_log := os_log s @
                                  [Sched_setscheduler (task cr) SCHED_NORMAL 0,
                                   Set_task_state (task cr) TASK_UNINTERRUPTIBLE]\<rparr>"
      have d: "dispatch_selected k t s1 = Inr s'"
        using assms(1) Cons Some cr tr True by (simp add: mp2_sched_kthread_cycle_def s1_def)
      have "\<forall>u r. heap s1 u = Some r \<and> state r = MP2_TASK_READY \<longrightarrow> u \<in> set (mp2_rq s1)"
        using inv(2) c by (auto simp: s1_def split: if_splits)
      moreover have "t \<in> set (mp2_rq s1)" "0 < mp2_sem s1" using t inv(1) by (simp_all add: s1_def)
      ultimately show ?thesis using d dispatch_selected_keeps_ready_queued by blast
    qed
  qed
qed


lemma yield_cases:
  assumes "mp2_yield_process j p s = Inr s'"
  obtains (unknown) "s' = s"
  | (sleep) t r where "heap s t = Some r" and "j < next_period r"
      and "s' = yield_suspend r (s\<lparr>heap := (heap s)(t \<mapsto>
             r\<lparr>state := MP2_TASK_SLEEPING, wakeup_timer := Some (j + (next_period r - j))\<rparr>)\<rparr>)"
  | (sleep_current) t r where "heap s t = Some r" and "j < next_period r"
      and "t \<in> set (mp2_rq s)"
      and "s' = yield_suspend r (s\<lparr>heap := (heap s)(t \<mapsto>
             r\<lparr>state := MP2_TASK_SLEEPING, wakeup_timer := Some (j + (next_period r - j))\<rparr>),
             mp2_rq := remove1 t (mp2_rq s), mp2_current := None,
             os_log := os_log s @ [Wake_up_interruptible]\<rparr>)"
  | (late_wake) t r s1 where "heap s t = Some r" and "\<not> j < next_period r"
      and "mp2_add_task_to_rq t (s\<lparr>heap := (heap s)(t \<mapsto> r\<lparr>state := MP2_TASK_READY\<rparr>)\<rparr>) = Inr s1"
      and "s' = yield_suspend r (s1\<lparr>os_log := os_log s1 @ [Wake_up_interruptible], mp2_current := None\<rparr>)"
  | (late) t r where "heap s t = Some r" and "\<not> j < next_period r"
      and "s' = yield_suspend r (s\<lparr>os_log := os_log s @ [Wake_up_interruptible], mp2_current := None\<rparr>)"
proof -
  from assms obtain is_cur where c1: "current_has_pid s p = Inr is_cur"
    by (cases "current_has_pid s p") (simp_all add: mp2_yield_process_def)
  define found where "found = (if is_cur then Inr (mp2_current s) else find_mp2_task_by_pid s p)"
  from assms c1 obtain tmp where f: "found = Inr tmp"
    by (cases found) (simp_all add: mp2_yield_process_def found_def)
  show ?thesis
  proof (cases tmp)
    case None
    then have "s' = s" using assms c1 f by (simp add: mp2_yield_process_def found_def)
    then show ?thesis by (rule unknown)
  next
    case (Some t)
    from assms c1 f Some obtain r where r: "heap s t = Some r"
      by (cases "heap s t") (simp_all add: mp2_yield_process_def found_def)
    show ?thesis
    proof (cases "j < next_period r")
      case True
      define s1 where "s1 = s\<lparr>heap := (heap s)(t \<mapsto>
             r\<lparr>state := MP2_TASK_SLEEPING, wakeup_timer := Some (j + (next_period r - j))\<rparr>)\<rparr>"
      from assms c1 f Some r True obtain running where c2: "current_has_pid s1 (pid r) = Inr running"
        by (cases "current_has_pid s1 (pid r)")
           (simp_all add: mp2_yield_process_def found_def Let_def s1_def)
      show ?thesis
      proof (cases running)
        case False
        then have "s' = yield_suspend r s1"
          using assms c1 f Some r True c2
          by (simp add: mp2_yield_process_def found_def Let_def s1_def)
        then show ?thesis using r True by (intro sleep) (simp_all add: s1_def)
      next
        case running: True
        show ?thesis
        proof (cases "t \<in> set (mp2_rq s)")
          case False
          then show ?thesis
            using assms c1 f Some r True c2 running
            by (simp add: mp2_yield_process_def found_def Let_def s1_def mp2_remove_task_from_rq_def)
        next
          case inq: True
          then have "s' = yield_suspend r (s1\<lparr>mp2_rq := remove1 t (mp2_rq s1), mp2_current := None,
             os_log := os_log s1 @ [Wake_up_interruptible]\<rparr>)"
            using assms c1 f Some r True c2 running
            by (simp add: mp2_yield_process_def found_def Let_def s1_def mp2_remove_task_from_rq_def)
          then show ?thesis using r True inq by (intro sleep_current) (simp_all add: s1_def)
        qed
      qed
    next
      case False
      show ?thesis
      proof (cases "state r = MP2_TASK_SLEEPING")
        case True
        from assms c1 f Some r False True obtain s1 where
          a: "mp2_add_task_to_rq t (s\<lparr>heap := (heap s)(t \<mapsto> r\<lparr>state := MP2_TASK_READY\<rparr>)\<rparr>) = Inr s1"
          by (cases "mp2_add_task_to_rq t (s\<lparr>heap := (heap s)(t \<mapsto> r\<lparr>state := MP2_TASK_READY\<rparr>)\<rparr>)")
             (simp_all add: mp2_yield_process_def found_def)
        then have "s' = yield_suspend r (s1\<lparr>os_log := os_log s1 @ [Wake_up_interruptible], mp2_current := None\<rparr>)"
          using assms c1 f Some r False True by (simp add: mp2_yield_process_def found_def)
        then show ?thesis using r False a by (intro late_wake) simp_all
      next
        case awake: False
        then have "s' = yield_suspend r (s\<lparr>os_log := os_log s @ [Wake_up_interruptible], mp2_current := None\<rparr>)"
          using assms c1 f Some r False by (simp add: mp2_yield_process_def found_def)
        then show ?thesis using r False by (intro late) simp_all
      qed
    qed
  qed
qed

lemma yield_keeps_ready_queued:
  assumes "mp2_yield_process j p s = Inr s'" and "ready_queued s"
  shows "ready_queued s'"
  using assms(1)
proof (cases rule: yield_cases)
  case unknown
  then show ?thesis using assms(2) by simp
next
  case (sleep t r)
  show ?thesis
  proof (rule ready_queuedI)
    show "0 < mp2_sem s'" using ready_queued_sem[OF assms(2)] by (simp add: sleep yield_suspend_def)
  next
    fix u ru assume "heap s' u = Some ru" "state ru = MP2_TASK_READY"
    then have "heap s u = Some ru" by (auto simp: sleep yield_suspend_def split: if_splits)
    then show "u \<in> set (mp2_rq s')"
      using ready_queued_ready[OF assms(2)] \<open>state ru = MP2_TASK_READY\<close>
      by (simp add: sleep yield_suspend_def)
  next
    fix c assume "mp2_current s' = Some c"
    then show "c \<in> set (mp2_rq s')"
      using ready_queued_current[OF assms(2)] by (simp add: sleep yield_suspend_def)
  qed
next
  case (sleep_current t r)
  show ?thesis
  proof (rule ready_queuedI)
    show "0 < mp2_sem s'"
      using ready_queued_sem[OF assms(2)] by (simp add: sleep_current yield_suspend_def)
  next
    fix u ru assume "heap s' u = Some ru" "state ru = MP2_TASK_READY"
    then have "u \<noteq> t" "heap s u = Some ru"
      by (auto simp: sleep_current yield_suspend_def split: if_splits)
    then have "u \<in> set (mp2_rq s)"
      using ready_queued_ready[OF assms(2)] \<open>state ru = MP2_TASK_READY\<close> by blast
    then show "u \<in> set (mp2_rq s')"
      using \<open>u \<noteq> t\<close> by (simp add: sleep_current yield_suspend_def)
  next
    fix c assume "mp2_current s' = Some c"
    then show "c \<in> set (mp2_rq s')" by (simp add: sleep_current yield_suspend_def)
  qed
next
  case (late_wake t r s1)
  from wake_keeps_ready_queued[OF late_wake(3) assms(2)] show ?thesis
    unfolding late_wake(4) ready_queued_def yield_suspend_def by simp
next
  case (late t r)
  then show ?thesis using assms(2) unfolding ready_queued_def yield_suspend_def by simp
qed


lemma step_keeps_ready_queued:
  assumes "step k e s = Some (Inr s')" and "ready_queued s"
  shows "ready_queued s'"
proof (cases e)
  case (Register j a pid' p c)
  then show ?thesis using assms register_keeps_ready_queued by (auto split: if_splits)
next
  case (Yield j pid')
  then show ?thesis using assms yield_keeps_ready_queued by auto
next
  case (Deregister pid')
  then show ?thesis using assms deregister_keeps_ready_queued by auto
next
  case (Timer_expiry j t)
  then show ?thesis using assms timer_keeps_ready_queued by auto
next
  case Dispatcher_wakeup
  then show ?thesis using assms cycle_keeps_ready_queued by auto
qed

lemma run_keeps_ready_queued:
  "run k es s = Some (Inr s') \<Longrightarrow> ready_queued s \<Longrightarrow> ready_queued s'"
proof (induction es arbitrary: s)
  case Nil
  then show ?case by simp
next
  case (Cons e es)
  then obtain s1 where "step k e s = Some (Inr s1)" "run k es s1 = Some (Inr s')"
    by (auto split: option.splits sum.splits)
  then show ?case using Cons.IH Cons.prems(2) step_keeps_ready_queued by blast
qed

text \<open>
  Claim C4, as the code has it. In every state the module reaches by a run that keeps
  the run queue a list (no step faults, links a record that is already on the run queue
  or unlinks one that is not), every record whose state is READY is in the run queue, and
  the current task is in the run queue as well: the dispatcher leaves the task it
  dispatches at the head of the queue. Nothing is said of the states after a record has
  been linked twice; \<open>relink_drops_later_entry\<close> shows a READY record off the list
  there.
\<close>

theorem ready_tasks_are_queued:
  assumes "reachable_intact k s"
  shows "(\<forall>t r. heap s t = Some r \<and> state r = MP2_TASK_READY \<longrightarrow> t \<in> set (mp2_rq s)) \<and>
         (\<forall>c. mp2_current s = Some c \<longrightarrow> c \<in> set (mp2_rq s))"
proof -
  from assms obtain es where "run k es mp2_init_module = Some (Inr s)"
    by (auto simp: reachable_intact_def)
  moreover have "ready_queued mp2_init_module"
    by (simp add: ready_queued_def mp2_init_module_def)
  ultimately have "ready_queued s" by (rule run_keeps_ready_queued)
  then show ?thesis by (simp add: ready_queued_def)
qed


lemma after_8:
  "\<exists>s. run kernel_1000hz (take 8 two_tasks) mp2_init_module = Some (Inr s) \<and>
     mp2_rq s = [1, 0] \<and> mp2_current s = Some 1 \<and> mp2_sem s = 1 \<and>
     mp2_task_struct_list s = [0, 1] \<and>
     heap s 0 = Some \<lparr>pid = 1, task = 1, wakeup_timer = None, task_C = 10, task_P = 100,
                      next_period = 200, state = MP2_TASK_READY\<rparr> \<and>
     heap s 1 = Some \<lparr>pid = 2, task = 2, wakeup_timer = None, task_C = 10, task_P = 50,
                      next_period = 160, state = MP2_TASK_RUNNING\<rparr>"
  by (simp add: two_tasks_def mp2_register_process_def mp2_admission_control_def
      mp2_yield_process_def mp2_sched_kthread_cycle_def dispatch_selected_def run_timer_def
      wakeup_timer_handler_def find_mp2_task_by_pid_def mp2_add_task_to_rq_def
      mp2_remove_task_from_rq_def current_has_pid_def yield_suspend_def mp2_init_module_def
      kernel_1000hz_def)

theorem ready_tasks_are_queued_witness:
  "\<exists>s. reachable_intact kernel_1000hz s \<and>
     map_option state (heap s 0) = Some MP2_TASK_READY \<and> 0 \<in> set (mp2_rq s) \<and>
     mp2_current s = Some 1 \<and> 1 \<in> set (mp2_rq s)"
proof -
  from after_8 obtain s where s:
    "run kernel_1000hz (take 8 two_tasks) mp2_init_module = Some (Inr s)"
    "mp2_current s = Some 1"
    "heap s 0 = Some \<lparr>pid = 1, task = 1, wakeup_timer = None, task_C = 10, task_P = 100,
                      next_period = 200, state = MP2_TASK_READY\<rparr>"
    by blast
  have r: "reachable_intact kernel_1000hz s" using s(1) unfolding reachable_intact_def by blast
  from ready_tasks_are_queued[OF r] s(2,3)
  have "0 \<in> set (mp2_rq s)" "1 \<in> set (mp2_rq s)" by auto
  with r s(2,3) show ?thesis by (intro exI[of _ s]) simp
qed

text \<open>
  Claim C4 as stated fails: after A has been registered, has yielded, has been released
  by its timer and has been dispatched, A is RUNNING and is a member of the run queue.
\<close>

theorem running_task_is_queued_counterexample:
  "\<exists>s. reachable_intact kernel_1000hz s \<and> mp2_current s = Some 0 \<and>
     map_option state (heap s 0) = Some MP2_TASK_RUNNING \<and> 0 \<in> set (mp2_rq s)"
proof -
  have "\<exists>s. run kernel_1000hz (take 6 two_tasks) mp2_init_module = Some (Inr s) \<and>
     mp2_current s = Some 0 \<and>
     map_option state (heap s 0) = Some MP2_TASK_RUNNING \<and> 0 \<in> set (mp2_rq s)"
    by (simp add: two_tasks_def mp2_register_process_def mp2_admission_control_def
      mp2_yield_process_def mp2_sched_kthread_cycle_def dispatch_selected_def run_timer_def
      wakeup_timer_handler_def find_mp2_task_by_pid_def mp2_add_task_to_rq_def
      mp2_remove_task_from_rq_def current_has_pid_def yield_suspend_def mp2_init_module_def
      kernel_1000hz_def)
  then show ?thesis unfolding reachable_intact_def by blast
qed

section \<open>Registration and the release timer\<close>

text \<open>
  Claim C6, as the code has it. A registration that links a record sets its next release
  to jiffies plus \<open>msecs_to_jiffies\<close> of the period and its state to SLEEPING. The
  release timer is set up but not started: it is not pending, so it expires at no
  value of jiffies until a yield starts it.
\<close>

theorem register_sets_first_release:
  assumes "mp2_register_process k j (Some a) pid' p c s = Inr s'"
    and "mp2_task_struct_list s' \<noteq> mp2_task_struct_list s"
  shows "mp2_task_struct_list s' = mp2_task_struct_list s @ [a] \<and>
         map_option next_period (heap s' a) = Some (j + msecs_to_jiffies k p) \<and>
         map_option state (heap s' a) = Some MP2_TASK_SLEEPING \<and>
         map_option wakeup_timer (heap s' a) = Some None \<and>
         run_timer j' a s' = None"
  using assms unfolding mp2_register_process_def run_timer_def
  by (cases "mp2_admission_control c p s"; cases "find_task_by_pid k pid'")
     (auto split: if_splits)

theorem register_sets_first_release_witness:
  "\<exists>s'. mp2_register_process kernel_1000hz 0 (Some 0) 1 100 10 mp2_init_module = Inr s' \<and>
     mp2_task_struct_list s' \<noteq> mp2_task_struct_list mp2_init_module \<and>
     mp2_task_struct_list s' = [0] \<and>
     map_option next_period (heap s' 0) = Some 100 \<and>
     map_option state (heap s' 0) = Some MP2_TASK_SLEEPING \<and>
     map_option wakeup_timer (heap s' 0) = Some None \<and>
     run_timer 100 0 s' = None"
proof -
  obtain s' where r: "mp2_register_process kernel_1000hz 0 (Some 0) 1 100 10 mp2_init_module = Inr s'"
    and l: "mp2_task_struct_list s' = [0]"
    by (simp add: mp2_register_process_def mp2_admission_control_def mp2_init_module_def
        kernel_1000hz_def)
  have n: "mp2_task_struct_list s' \<noteq> mp2_task_struct_list mp2_init_module"
    using l by (simp add: mp2_init_module_def)
  from register_sets_first_release[OF r n, of 100] r n l show ?thesis
    by (intro exI[of _ s']) (simp add: kernel_1000hz_def mp2_init_module_def)
qed

text \<open>
  Claim C6 as stated fails: after the registration of A at jiffies 0 with period 100 the
  timer of A is not pending, and at jiffies 100 (and 1000) no release happens: A is
  still SLEEPING and the run queue is empty.
\<close>

theorem register_leaves_timer_idle_counterexample:
  "\<exists>s. run kernel_1000hz [Register 0 0 1 100 10] mp2_init_module = Some (Inr s) \<and>
     map_option next_period (heap s 0) = Some 100 \<and>
     map_option wakeup_timer (heap s 0) = Some None \<and>
     step kernel_1000hz (Timer_expiry 100 0) s = None \<and>
     step kernel_1000hz (Timer_expiry 1000 0) s = None \<and>
     map_option state (heap s 0) = Some MP2_TASK_SLEEPING \<and> mp2_rq s = []"
  by (simp add: mp2_register_process_def mp2_admission_control_def mp2_init_module_def
      kernel_1000hz_def run_timer_def)

section \<open>Yield\<close>

text \<open>
  What \<open>mp2_yield_process\<close> does with time left before the next release. For the
  current task: SLEEPING, timer started for the next release, unlinked from the run
  queue, \<open>mp2_current\<close> cleared and the dispatcher woken. For any other registered task
  the run queue and \<open>mp2_current\<close> are left alone.
\<close>

lemma yield_of_current_task_before_release:
  assumes "mp2_current s = Some t" and "heap s t = Some r" and "pid r = p"
    and "j < next_period r" and "t \<in> set (mp2_rq s)"
  shows "mp2_yield_process j p s =
         Inr (s\<lparr>heap := (heap s)(t \<mapsto>
                  r\<lparr>state := MP2_TASK_SLEEPING, wakeup_timer := Some (next_period r)\<rparr>),
                mp2_rq := remove1 t (mp2_rq s),
                mp2_current := None,
                os_log := os_log s @
                  [Wake_up_interruptible, Sched_setscheduler (task r) SCHED_NORMAL 0,
                   Set_task_state (task r) TASK_UNINTERRUPTIBLE, Schedule]\<rparr>)"
  using assms
  by (simp add: mp2_yield_process_def current_has_pid_def mp2_remove_task_from_rq_def
      yield_suspend_def Let_def)

lemma yield_of_other_task_before_release:
  assumes "current_has_pid s p = Inr False" and "find_mp2_task_by_pid s p = Inr (Some t)"
    and "heap s t = Some r" and "pid r = p" and "j < next_period r"
  shows "mp2_yield_process j p s =
         Inr (s\<lparr>heap := (heap s)(t \<mapsto>
                  r\<lparr>state := MP2_TASK_SLEEPING, wakeup_timer := Some (next_period r)\<rparr>),
                os_log := os_log s @
                  [Sched_setscheduler (task r) SCHED_NORMAL 0,
                   Set_task_state (task r) TASK_UNINTERRUPTIBLE, Schedule]\<rparr>)"
proof -
  have "current_has_pid (s\<lparr>heap := (heap s)(t \<mapsto>
                  r\<lparr>state := MP2_TASK_SLEEPING, wakeup_timer := Some (next_period r)\<rparr>)\<rparr>) p
        = Inr False"
    using assms(1,3,4)
    by (cases "mp2_current s") (auto simp: current_has_pid_def split: option.splits)
  then show ?thesis
    using assms
    by (simp add: mp2_yield_process_def yield_suspend_def Let_def)
qed

text \<open>
  Claim C7 fails on the code. In the run of two tasks, after B has preempted A, A is
  READY in the run queue [B, A] with its next release at 200. A yield for A at jiffies
  120 sets A to SLEEPING and starts its timer for 200 but, A not being the current task,
  leaves it in the run queue. When B then yields at 130, the dispatcher finds A at the
  head of the run queue and dispatches it, before 200 and with its timer still pending.
  When that timer expires at 200 the handler links A, still linked, into the run queue
  again.
\<close>

theorem yield_leaves_ready_task_queued:
  "\<exists>s s' s''.
     run kernel_1000hz (take 8 two_tasks) mp2_init_module = Some (Inr s) \<and>
     mp2_current s = Some 1 \<and> mp2_rq s = [1, 0] \<and>
     map_option state (heap s 0) = Some MP2_TASK_READY \<and>
     map_option next_period (heap s 0) = Some 200 \<and>
     mp2_yield_process 120 1 s = Inr s' \<and>
     map_option state (heap s' 0) = Some MP2_TASK_SLEEPING \<and>
     map_option wakeup_timer (heap s' 0) = Some (Some 200) \<and>
     mp2_rq s' = [1, 0] \<and>
     run kernel_1000hz [Yield 130 2, Dispatcher_wakeup] s' = Some (Inr s'') \<and>
     mp2_current s'' = Some 0 \<and>
     map_option state (heap s'' 0) = Some MP2_TASK_RUNNING \<and>
     map_option wakeup_timer (heap s'' 0) = Some (Some 200) \<and>
     step kernel_1000hz (Timer_expiry 200 0) s'' = Some (Inl ListCorruption)"
proof -
  from after_8 obtain s where s:
    "run kernel_1000hz (take 8 two_tasks) mp2_init_module = Some (Inr s)"
    "mp2_rq s = [1, 0]" "mp2_current s = Some 1" "mp2_sem s = 1"
    "mp2_task_struct_list s = [0, 1]"
    "heap s 0 = Some \<lparr>pid = 1, task = 1, wakeup_timer = None, task_C = 10, task_P = 100,
                      next_period = 200, state = MP2_TASK_READY\<rparr>"
    "heap s 1 = Some \<lparr>pid = 2, task = 2, wakeup_timer = None, task_C = 10, task_P = 50,
                      next_period = 160, state = MP2_TASK_RUNNING\<rparr>"
    by blast
  then have "\<exists>s' s''. mp2_yield_process 120 1 s = Inr s' \<and>
     map_option state (heap s' 0) = Some MP2_TASK_SLEEPING \<and>
     map_option wakeup_timer (heap s' 0) = Some (Some 200) \<and>
     mp2_rq s' = [1, 0] \<and>
     run kernel_1000hz [Yield 130 2, Dispatcher_wakeup] s' = Some (Inr s'') \<and>
     mp2_current s'' = Some 0 \<and>
     map_option state (heap s'' 0) = Some MP2_TASK_RUNNING \<and>
     map_option wakeup_timer (heap s'' 0) = Some (Some 200) \<and>
     step kernel_1000hz (Timer_expiry 200 0) s'' = Some (Inl ListCorruption)"
    by (simp add: mp2_yield_process_def mp2_sched_kthread_cycle_def dispatch_selected_def
      find_mp2_task_by_pid_def mp2_remove_task_from_rq_def current_has_pid_def
      yield_suspend_def kernel_1000hz_def run_timer_def wakeup_timer_handler_def
      mp2_add_task_to_rq_def)
  then obtain s' s'' where y: "mp2_yield_process 120 1 s = Inr s'"
     "map_option state (heap s' 0) = Some MP2_TASK_SLEEPING"
     "map_option wakeup_timer (heap s' 0) = Some (Some 200)"
     "mp2_rq s' = [1, 0]"
     "run kernel_1000hz [Yield 130 2, Dispatcher_wakeup] s' = Some (Inr s'')"
     "mp2_current s'' = Some 0"
     "map_option state (heap s'' 0) = Some MP2_TASK_RUNNING"
     "map_option wakeup_timer (heap s'' 0) = Some (Some 200)"
     "step kernel_1000hz (Timer_expiry 200 0) s'' = Some (Inl ListCorruption)"
    by blast
  have a: "map_option state (heap s 0) = Some MP2_TASK_READY"
    "map_option next_period (heap s 0) = Some 200"
    using s(6) by simp_all
  show ?thesis using s(1,2,3) a y by blast
qed

text \<open>
  Claim C8 fails on the code. In the second run A (pid 1) is the current task and is
  RUNNING when B (pid 2), SLEEPING with its period boundary at 110, yields at jiffies
  115. The yield puts B on the run queue and sets \<open>mp2_current\<close> to \<open>NULL\<close>, although the
  current task was A and not the yielding task; A is still RUNNING.
\<close>

theorem late_yield_clears_other_current:
  "\<exists>s s'.
     run kernel_1000hz (take 5 late_first_yield) mp2_init_module = Some (Inr s) \<and>
     mp2_current s = Some 0 \<and> map_option pid (heap s 0) = Some 1 \<and>
     map_option state (heap s 0) = Some MP2_TASK_RUNNING \<and>
     map_option state (heap s 1) = Some MP2_TASK_SLEEPING \<and>
     map_option next_period (heap s 1) = Some 110 \<and>
     mp2_yield_process 115 2 s = Inr s' \<and>
     mp2_current s' = None \<and>
     map_option state (heap s' 0) = Some MP2_TASK_RUNNING \<and>
     mp2_rq s' = [1, 0]"
  by (simp add: late_first_yield_def mp2_register_process_def mp2_admission_control_def
      mp2_yield_process_def mp2_sched_kthread_cycle_def dispatch_selected_def run_timer_def
      wakeup_timer_handler_def find_mp2_task_by_pid_def mp2_add_task_to_rq_def
      mp2_remove_task_from_rq_def current_has_pid_def yield_suspend_def mp2_init_module_def
      kernel_1000hz_def)

section \<open>Registering a pid twice\<close>

lemma scan_task_list_found:
  "scan_task_list h p ts = Inr (Some t) \<Longrightarrow> \<exists>r. h t = Some r \<and> pid r = p"
proof (induction ts)
  case Nil
  then show ?case by simp
next
  case (Cons u us)
  then show ?case by (cases "h u") (auto split: if_splits)
qed

lemma scan_task_list_extend:
  assumes "scan_task_list h p ts = Inr (Some t)" and "h a = None"
  shows "scan_task_list (h(a \<mapsto> r)) p (ts @ us) = Inr (Some t)"
  using assms(1)
proof (induction ts)
  case Nil
  then show ?case by simp
next
  case (Cons u us')
  from Cons.prems obtain ur where ur: "h u = Some ur" by (cases "h u") simp_all
  then have "u \<noteq> a" using assms(2) by auto
  then show ?case using Cons ur by (auto split: if_splits)
qed

text \<open>
  Claim C9, as the code has it. \<open>mp2_register_process\<close> does not look the pid up in the
  registry. When a record with the pid is already registered, a registration that passes
  admission control and whose process is found links a second record with the same pid
  at the tail of the registry; the first record is unchanged and remains the one that
  lookups by pid return.
\<close>

theorem register_accepts_registered_pid:
  assumes "find_mp2_task_by_pid s pid' = Inr (Some t)"
    and "mp2_admission_control c p s = Inr True"
    and "find_task_by_pid k pid' = Some h"
    and "heap s a = None"
  shows "\<exists>s'. mp2_register_process k j (Some a) pid' p c s = Inr s' \<and>
           mp2_task_struct_list s' = mp2_task_struct_list s @ [a] \<and>
           map_option pid (heap s' a) = Some pid' \<and>
           map_option pid (heap s' t) = Some pid' \<and>
           a \<noteq> t \<and> heap s' t = heap s t \<and>
           find_mp2_task_by_pid s' pid' = Inr (Some t)"
proof -
  have sem: "mp2_sem s \<noteq> 0"
    using assms(1) by (cases "mp2_sem s = 0") (simp_all add: find_mp2_task_by_pid_def)
  then have sc: "scan_task_list (heap s) pid' (mp2_task_struct_list s) = Inr (Some t)"
    using assms(1) by (simp add: find_mp2_task_by_pid_def)
  from scan_task_list_found[OF sc] obtain r where r: "heap s t = Some r" "pid r = pid'"
    by blast
  then have ne: "a \<noteq> t" using assms(4) by auto
  define s' where "s' = s\<lparr>heap := (heap s)(a \<mapsto>
       \<lparr>pid = pid', task = h, wakeup_timer = None, task_C = c, task_P = p,
        next_period = j + msecs_to_jiffies k p, state = MP2_TASK_SLEEPING\<rparr>),
     mp2_task_struct_list := mp2_task_struct_list s @ [a]\<rparr>"
  have reg: "mp2_register_process k j (Some a) pid' p c s = Inr s'"
    using assms(2,3) sem by (simp add: mp2_register_process_def s'_def)
  have "find_mp2_task_by_pid s' pid' = Inr (Some t)"
    using sem scan_task_list_extend[OF sc assms(4)]
    by (simp add: find_mp2_task_by_pid_def s'_def)
  then show ?thesis using reg r ne by (intro exI[of _ s']) (simp add: s'_def)
qed

theorem register_accepts_registered_pid_witness:
  "\<exists>s. run kernel_1000hz [Register 0 0 1 100 10] mp2_init_module = Some (Inr s) \<and>
     find_mp2_task_by_pid s 1 = Inr (Some 0) \<and>
     mp2_admission_control 10 100 s = Inr True \<and>
     find_task_by_pid kernel_1000hz 1 = Some 1 \<and>
     heap s 1 = None \<and>
     (\<exists>s'. mp2_register_process kernel_1000hz 5 (Some 1) 1 100 10 s = Inr s' \<and>
           mp2_task_struct_list s' = [0, 1] \<and>
           map_option pid (heap s' 0) = Some 1 \<and> map_option pid (heap s' 1) = Some 1)"
proof -
  obtain s where s: "run kernel_1000hz [Register 0 0 1 100 10] mp2_init_module = Some (Inr s)"
    and h: "find_mp2_task_by_pid s 1 = Inr (Some 0)"
      "mp2_admission_control 10 100 s = Inr True"
      "find_task_by_pid kernel_1000hz 1 = Some 1"
      "heap s 1 = None"
    and l: "mp2_task_struct_list s = [0]"
    by (simp add: mp2_register_process_def mp2_admission_control_def mp2_init_module_def
        kernel_1000hz_def find_mp2_task_by_pid_def)
  from register_accepts_registered_pid[OF h, of 5] obtain s' where
    "mp2_register_process kernel_1000hz 5 (Some 1) 1 100 10 s = Inr s'"
    "mp2_task_struct_list s' = mp2_task_struct_list s @ [1]"
    "map_option pid (heap s' 1) = Some 1" "map_option pid (heap s' 0) = Some 1"
    by blast
  with s h l show ?thesis by (intro exI[of _ s]) simp
qed

text \<open>
  Claim C9 as stated fails: registering pid 1 twice gives no error and a registry of two
  records, both with pid 1.
\<close>

theorem duplicate_registration_counterexample:
  "\<exists>s. run kernel_1000hz [Register 0 0 1 100 10, Register 5 1 1 100 10] mp2_init_module
        = Some (Inr s) \<and>
     mp2_task_struct_list s = [0, 1] \<and>
     map_option pid (heap s 0) = Some 1 \<and> map_option pid (heap s 1) = Some 1"
  by (simp add: mp2_register_process_def mp2_admission_control_def mp2_init_module_def
      kernel_1000hz_def)

section \<open>The next release moves only on dispatch\<close>














end
